theory Spec2Isabelle
  imports Main "HOL-Library.Char_ord" "HOL-Library.List_Lexorder" "HOL-Library.Product_Lexorder"
    "HOL-Library.Sublist"
begin

section \<open>Paths\<close>

text \<open>
  A \<open>std::filesystem::path\<close> on a POSIX system is its native string. The operations
  the tracer uses are written out on the string: iteration over the elements (the root
  directory, then every file name, then an empty element for a trailing separator),
  \<open>operator/\<close>, \<open>parent_path\<close>, \<open>filename\<close> and \<open>compare\<close>.
\<close>

type_synonym path = string

definition has_root_directory :: "path \<Rightarrow> bool" where
  "has_root_directory p = (case p of [] \<Rightarrow> False | c # _ \<Rightarrow> c = CHR ''/'')"

text \<open>The fields between separators, empty ones included.\<close>

fun sep_fields :: "string \<Rightarrow> string list" where
  "sep_fields [] = [[]]"
| "sep_fields (c # cs) =
     (if c = CHR ''/'' then [] # sep_fields cs
      else (case sep_fields cs of [] \<Rightarrow> [[c]] | f # fs \<Rightarrow> (c # f) # fs))"

text \<open>
  The elements of \<open>relative_path()\<close>: the file names, runs of separators counting as one,
  and an empty last element when a separator follows the last file name.
\<close>

definition rel_elems :: "path \<Rightarrow> string list" where
  "rel_elems p =
     (let names = filter (\<lambda>f. f \<noteq> []) (sep_fields p)
      in if names \<noteq> [] \<and> p \<noteq> [] \<and> last p = CHR ''/'' then names @ [[]] else names)"

text \<open>What \<open>begin()\<close> .. \<open>end()\<close> runs through.\<close>

definition elems :: "path \<Rightarrow> string list" where
  "elems p = (if has_root_directory p then [''/''] else []) @ rel_elems p"

definition filename :: "path \<Rightarrow> path" where
  "filename p = rev (takeWhile (\<lambda>c. c \<noteq> CHR ''/'') (rev p))"

text \<open>
  \<open>parent_path\<close>: the path itself when it has no relative part, otherwise the string up to
  the end of the element before the last one.
\<close>

definition parent_path :: "path \<Rightarrow> path" where
  "parent_path p =
     (if rel_elems p = [] then p
      else let q = rev (dropWhile (\<lambda>c. c \<noteq> CHR ''/'') (rev p));
               r = rev (dropWhile (\<lambda>c. c = CHR ''/'') (rev q))
           in if r = [] then (if q = [] then [] else ''/'') else r)"

text \<open>\<open>operator/\<close>: an absolute right operand replaces the left one.\<close>

definition path_append :: "path \<Rightarrow> path \<Rightarrow> path" where
  "path_append p q =
     (if has_root_directory q then q
      else if p \<noteq> [] \<and> last p \<noteq> CHR ''/'' then p @ ''/'' @ q
      else p @ q)"

text \<open>
  \<open>std::search(dir.begin(), dir.end(), storeDir.begin(), storeDir.end())\<close>: the position of
  the first occurrence of the needle, the end of the haystack when there is none.
\<close>

fun search :: "'a list \<Rightarrow> 'a list \<Rightarrow> nat" where
  "search [] needle = 0"
| "search (h # hs) needle =
     (if take (length needle) (h # hs) = needle then 0 else Suc (search hs needle))"

definition isInStore :: "path \<Rightarrow> path \<Rightarrow> bool" where
  "isInStore storeDir dir = (search (elems dir) (elems storeDir) = 0)"

text \<open>
  \<open>path::compare\<close>: no root name on POSIX; a path without root directory is smaller than one
  with it; then the elements of the relative paths are compared lexicographically, each as a
  byte string. Two paths are equivalent keys of a \<open>std::set\<close> or \<open>std::map\<close> when their
  \<open>pkey\<close> is the same.
\<close>

definition pkey :: "path \<Rightarrow> bool \<times> string list" where
  "pkey p = (has_root_directory p, rel_elems p)"

definition path_less :: "path \<Rightarrow> path \<Rightarrow> bool" where
  "path_less a b = (pkey a < pkey b)"

section \<open>Ordered containers\<close>

text \<open>
  A \<open>std::set<fs::path>\<close> is the list of its elements in iteration order;
  a \<open>std::map<fs::path, std::set<fs::path>>\<close> the list of its entries in iteration order.
\<close>

type_synonym path_set = "path list"
type_synonym Roots = "(path \<times> path_set) list"

definition set_insert :: "path \<Rightarrow> path_set \<Rightarrow> path_set" where
  "set_insert x xs =
     (if \<exists>y \<in> set xs. pkey y = pkey x then xs else insort_key pkey x xs)"

text \<open>\<open>m[k].insert(v)\<close>\<close>

definition roots_add :: "path \<Rightarrow> path \<Rightarrow> Roots \<Rightarrow> Roots" where
  "roots_add k v m =
     (if \<exists>e \<in> set m. pkey (fst e) = pkey k
      then map (\<lambda>e. if pkey (fst e) = pkey k then (fst e, set_insert v (snd e)) else e) m
      else insort_key (\<lambda>e. pkey (fst e)) (k, [v]) m)"

text \<open>\<open>m.insert(e)\<close> of one entry: an entry with an equivalent key stays as it is.\<close>

definition map_insert :: "path \<times> path_set \<Rightarrow> Roots \<Rightarrow> Roots" where
  "map_insert e m =
     (if \<exists>e' \<in> set m. pkey (fst e') = pkey (fst e) then m
      else insort_key (\<lambda>e. pkey (fst e)) e m)"

text \<open>\<open>m.insert(first, last)\<close>\<close>

definition map_insert_range :: "Roots \<Rightarrow> Roots \<Rightarrow> Roots" where
  "map_insert_range src m = fold map_insert src m"

section \<open>The file system\<close>

type_synonym errno = nat

definition ENOENT :: errno where "ENOENT = 2"
definition EINTR :: errno where "EINTR = 4"
definition EACCES :: errno where "EACCES = 13"

datatype file_type =
  none | not_found | regular | directory | symlink | block | character | fifo | socket | unknown

text \<open>
  An entry a \<open>recursive_directory_iterator\<close> yields: its path, the type its
  \<open>symlink_status()\<close> has, and, for a directory, what iterating it yields in turn:
  its entries, and the error the iteration ends with if it fails.
\<close>

datatype dirent = Dirent path file_type "dirent list" "errno option"

text \<open>
  The file system as the program observes it during one scan. Every function is one
  library call; \<open>Inl e\<close> is the \<open>filesystem_error\<close> it throws. A directory listing is the
  entries yielded and the error thrown after them, if any.
\<close>

record filesystem =
  symlink_status :: "path \<Rightarrow> errno + file_type"
  recursive_directory_iterator :: "path \<Rightarrow> dirent list \<times> errno option"
  read_symlink :: "path \<Rightarrow> errno + path"
  exists :: "path \<Rightarrow> errno + bool"
  directory_iterator :: "path \<Rightarrow> path list \<times> errno option"
  is_directory :: "path \<Rightarrow> errno + bool"
  content :: "path \<Rightarrow> string"

section \<open>Options and results\<close>

datatype VerbosityLvl = Quiet | Verbose

record GlobalOpts =
  storeDir :: path
  stateDir :: path
  socketPath :: path
  verbosity :: VerbosityLvl

record TraceResult =
  storeRoots :: Roots
  deadLinks :: path_set

section \<open>The tracer\<close>

text \<open>The lambda \<open>not_found\<close> of the symlink case: \<open>res.deadLinks.insert(root)\<close>.\<close>

definition mark_dead :: "path \<Rightarrow> TraceResult \<Rightarrow> TraceResult" where
  "mark_dead root res = res\<lparr>deadLinks := set_insert root (deadLinks res)\<rparr>"

text \<open>\<open>res.storeRoots[k].insert(root)\<close>\<close>

definition add_root :: "path \<Rightarrow> path \<Rightarrow> TraceResult \<Rightarrow> TraceResult" where
  "add_root k root res = res\<lparr>storeRoots := roots_add k root (storeRoots res)\<rparr>"

text \<open>
  The body of \<open>case fs::file_type::regular\<close>, which the symlink case falls into as well.
  \<open>fs::exists\<close> may throw; nothing catches that here.
\<close>

definition regular_case ::
  "filesystem \<Rightarrow> GlobalOpts \<Rightarrow> TraceResult \<Rightarrow> path \<Rightarrow> TraceResult \<times> errno option" where
  "regular_case fs opts res root =
     (let possibleStorePath = path_append (storeDir opts) (filename root)
      in case exists fs possibleStorePath of
           Inl e \<Rightarrow> (res, Some e)
         | Inr True \<Rightarrow> (add_root possibleStorePath root res, None)
         | Inr False \<Rightarrow> (res, None))"

text \<open>The order in which a recursive iteration yields a forest of entries.\<close>

fun preorder :: "dirent list \<Rightarrow> dirent list" where
  "preorder [] = []"
| "preorder (Dirent p t cs e # rest) = Dirent p t cs e # preorder cs @ preorder rest"

fun weight :: "dirent \<Rightarrow> nat" where
  "weight (Dirent p t cs e) = Suc (sum_list (map weight cs))"

definition max_weight :: "dirent list \<Rightarrow> nat" where
  "max_weight ds = fold (\<lambda>d m. max (weight d) m) ds 0"

lemma max_weight_Nil [simp]: "max_weight [] = 0"
  by (simp add: max_weight_def)

lemma fold_max_acc: "fold (\<lambda>d m. max (weight d) m) ds a = max a (fold (\<lambda>d m. max (weight d) m) ds 0)"
proof (induction ds arbitrary: a)
  case Nil
  show ?case by simp
next
  case (Cons d ds)
  have "fold (\<lambda>d m. max (weight d) m) (d # ds) a
        = max (max (weight d) a) (fold (\<lambda>d m. max (weight d) m) ds 0)"
    using Cons.IH [of "max (weight d) a"] by simp
  also have "\<dots> = max a (max (weight d) (fold (\<lambda>d m. max (weight d) m) ds 0))"
    by (simp add: max.commute max.left_commute)
  also have "\<dots> = max a (fold (\<lambda>d m. max (weight d) m) (d # ds) 0)"
    using Cons.IH [of "max (weight d) 0"] by simp
  finally show ?case .
qed

lemma max_weight_Cons [simp]: "max_weight (d # ds) = max (weight d) (max_weight ds)"
  unfolding max_weight_def using fold_max_acc [of ds "max (weight d) 0"] by simp

lemma max_weight_append [simp]: "max_weight (xs @ ys) = max (max_weight xs) (max_weight ys)"
  by (induction xs) (simp_all add: max.assoc)

lemma max_weight_preorder: "max_weight (preorder ds) \<le> sum_list (map weight ds)"
proof (induction ds rule: preorder.induct)
  case 1
  show ?case by simp
next
  case (2 p t cs e rest)
  then show ?case by simp
qed

text \<open>
  \<open>followPathToStore\<close> with the status given (the five-argument overload). The result is
  the trace result as the call leaves it and the \<open>filesystem_error\<close> it throws, if any:
  what was inserted before a throw stays inserted. The last two arguments are what
  \<open>recursive_directory_iterator(root)\<close> yields; for an entry met during an iteration
  they are the part of that iteration below the entry.
\<close>

function followPathToStore ::
    "filesystem \<Rightarrow> GlobalOpts \<Rightarrow> int \<Rightarrow> TraceResult \<Rightarrow> path \<Rightarrow> file_type \<Rightarrow>
     dirent list \<Rightarrow> errno option \<Rightarrow> TraceResult \<times> errno option"
  and followChildren ::
    "filesystem \<Rightarrow> GlobalOpts \<Rightarrow> int \<Rightarrow> TraceResult \<Rightarrow> dirent list \<Rightarrow>
     TraceResult \<times> errno option"
where
  "followPathToStore fs opts recursionsLeft res root status sub suberr =
     (if recursionsLeft < 0 then (res, None)
      else case status of
        directory \<Rightarrow>
          (case followChildren fs opts recursionsLeft res (preorder sub) of
             (res', Some e) \<Rightarrow> (res', Some e)
           | (res', None) \<Rightarrow> (res', suberr))
      | symlink \<Rightarrow>
          (case read_symlink fs root of
             Inl e \<Rightarrow> (res, Some e)
           | Inr link \<Rightarrow>
               (let target = path_append (parent_path root) link
                in case symlink_status fs target of
                     Inl e \<Rightarrow> regular_case fs opts (mark_dead root res) root
                   | Inr target_status \<Rightarrow>
                       (let res1 = (if target_status = not_found then mark_dead root res else res)
                        in if isInStore (storeDir opts) target
                           then (add_root target root res1, None)
                           else
                             (case followPathToStore fs opts (recursionsLeft - 1) res1 target
                                     target_status
                                     (fst (recursive_directory_iterator fs target))
                                     (snd (recursive_directory_iterator fs target)) of
                                (res2, Some e) \<Rightarrow> regular_case fs opts (mark_dead root res2) root
                              | (res2, None) \<Rightarrow> regular_case fs opts res2 root))))
      | regular \<Rightarrow> regular_case fs opts res root
      | _ \<Rightarrow> (res, None))"
| "followChildren fs opts recursionsLeft res [] = (res, None)"
| "followChildren fs opts recursionsLeft res (Dirent p t cs e # rest) =
     (case followPathToStore fs opts recursionsLeft res p t cs e of
        (res', Some err) \<Rightarrow> (res', Some err)
      | (res', None) \<Rightarrow> followChildren fs opts recursionsLeft res' rest)"
  by pat_completeness auto
termination
proof (relation "inv_image (less_than <*lex*> less_than <*lex*> less_than)
    (\<lambda>x. case x of
        Inl (fs, opts, n, res, root, status, sub, suberr) \<Rightarrow>
          (nat (n + 1), Suc (sum_list (map weight sub)), 0)
      | Inr (fs, opts, n, res, ds) \<Rightarrow> (nat (n + 1), max_weight ds, Suc (length ds)))",
    goal_cases)
  case 1
  show ?case by (intro wf_inv_image wf_lex_prod wf_less_than)
next
  case (2 fs opts n res root status sub suberr)
  then show ?case using max_weight_preorder [of sub] by simp
next
  case 3
  then show ?case by (simp split: prod.splits)
next
  case (4 fs opts n res p t cs e rest)
  then show ?case by (auto simp: less_max_iff_disj)
next
  case 5
  then show ?case by (auto simp: less_max_iff_disj)
qed

text \<open>
  \<open>followPathToStore\<close> without a status (the four-argument overload): it takes the status
  itself and catches every \<open>filesystem_error\<close>, so nothing is thrown from here.
\<close>

definition followPathToStore_path ::
  "filesystem \<Rightarrow> GlobalOpts \<Rightarrow> int \<Rightarrow> TraceResult \<Rightarrow> path \<Rightarrow> TraceResult" where
  "followPathToStore_path fs opts recursionsLeft res root =
     (case symlink_status fs root of
        Inl e \<Rightarrow> res
      | Inr status \<Rightarrow>
          fst (followPathToStore fs opts recursionsLeft res root status
                 (fst (recursive_directory_iterator fs root))
                 (snd (recursive_directory_iterator fs root))))"

definition maxRecursionLevel :: int where
  "maxRecursionLevel = 2"

definition followPathsToStore :: "filesystem \<Rightarrow> GlobalOpts \<Rightarrow> path_set \<Rightarrow> TraceResult" where
  "followPathsToStore fs opts roots =
     fold (\<lambda>root res. followPathToStore_path fs opts maxRecursionLevel res root) roots
       \<lparr>storeRoots = [], deadLinks = []\<rparr>"

section \<open>The regular expressions\<close>

text \<open>
  \<open>storePathRegex\<close>: \<open>quoteRegexChars\<close> escapes every special character of the store
  directory, so the expression is the store directory taken literally, a separator, one
  character of \<open>[0-9a-z]\<close> at least and then characters of \<open>[0-9a-zA-Z+\-._?=]\<close>. The first
  class lies within the second, so the greedy match at a position is one character of the
  first class and the longest run of the second class after it.
\<close>

definition is_digit :: "char \<Rightarrow> bool" where
  "is_digit c = (CHR ''0'' \<le> c \<and> c \<le> CHR ''9'')"

definition is_name_start :: "char \<Rightarrow> bool" where
  "is_name_start c = (is_digit c \<or> (CHR ''a'' \<le> c \<and> c \<le> CHR ''z''))"

definition is_name_char :: "char \<Rightarrow> bool" where
  "is_name_char c =
     (is_name_start c \<or> (CHR ''A'' \<le> c \<and> c \<le> CHR ''Z'') \<or>
      c \<in> set ''+-._?='')"

definition store_name :: "string \<Rightarrow> bool" where
  "store_name n = (case n of [] \<Rightarrow> False | c # cs \<Rightarrow> is_name_start c \<and> (\<forall>d \<in> set cs. is_name_char d))"

text \<open>The match of \<open>storePathRegex(storeDir)\<close> that starts at the head of the text, if any.\<close>

definition match_here :: "path \<Rightarrow> string \<Rightarrow> string option" where
  "match_here sd text =
     (let lit = sd @ ''/''
      in if take (length lit) text = lit
         then (case drop (length lit) text of
                 [] \<Rightarrow> None
               | c # cs \<Rightarrow> if is_name_start c then Some (lit @ c # takeWhile is_name_char cs)
                           else None)
         else None)"

text \<open>
  The \<open>sregex_iterator\<close>: the leftmost match, then the leftmost match after its end, and so
  on. The counter is the number of characters of the last match still to be passed.
\<close>

fun regex_matches :: "path \<Rightarrow> nat \<Rightarrow> string \<Rightarrow> string list" where
  "regex_matches sd k [] = []"
| "regex_matches sd (Suc k) (c # cs) = regex_matches sd k cs"
| "regex_matches sd 0 (c # cs) =
     (case match_here sd (c # cs) of
        Some m \<Rightarrow> m # regex_matches sd (length m - 1) cs
      | None \<Rightarrow> regex_matches sd 0 cs)"

text \<open>\<open>\s\<close> in the classic locale.\<close>

definition is_space :: "char \<Rightarrow> bool" where
  "is_space c = (c \<in> set [CHR '' '', CHR 0x09, CHR 0x0A, CHR 0x0B, CHR 0x0C, CHR 0x0D])"

text \<open>The maximal runs of characters that are not white space.\<close>

fun tokens :: "string \<Rightarrow> string list" where
  "tokens [] = []"
| "tokens (c # cs) =
     (if is_space c then tokens cs
      else (case cs of
              [] \<Rightarrow> [[c]]
            | d # _ \<Rightarrow> if is_space d then [c] # tokens cs
                       else (case tokens cs of [] \<Rightarrow> [[c]] | t # ts \<Rightarrow> (c # t) # ts)))"

text \<open>
  \<open>mapRegex\<close> matched against a whole line: five fields, then a sixth that starts with a
  separator and has a character after it, white space around and between them. Since
  \<open>\S\<close> and \<open>\s\<close> are complementary the fields are the tokens of the line. The result is
  the sub-match \<open>match[1]\<close>.
\<close>

definition match_map_line :: "string \<Rightarrow> string option" where
  "match_map_line line =
     (case tokens line of
        [t1, t2, t3, t4, t5, t6] \<Rightarrow>
          (case t6 of
             c # d # _ \<Rightarrow> if c = CHR ''/'' then Some t6 else None
           | _ \<Rightarrow> None)
      | _ \<Rightarrow> None)"

text \<open>The lines \<open>std::getline\<close> returns one after the other.\<close>

fun getlines :: "string \<Rightarrow> string list" where
  "getlines [] = []"
| "getlines (c # cs) =
     (if c = CHR 0x0A then [] # getlines cs
      else (case getlines cs of [] \<Rightarrow> [[c]] | l # ls \<Rightarrow> (c # l) # ls))"

text \<open>\<open>^\d+$\<close> matched against a whole name.\<close>

definition all_digits :: "string \<Rightarrow> bool" where
  "all_digits n = (n \<noteq> [] \<and> (\<forall>c \<in> set n. is_digit c))"

section \<open>The runtime roots\<close>

text \<open>
  The functions below change a \<open>Roots\<close> through a reference and may throw: the result is
  \<open>Inl\<close> the error thrown, or \<open>Inr\<close> the map as the call leaves it.
\<close>

definition scanFileContent :: "filesystem \<Rightarrow> GlobalOpts \<Rightarrow> path \<Rightarrow> Roots \<Rightarrow> errno + Roots" where
  "scanFileContent fs opts fileToScan res =
     (case exists fs fileToScan of
        Inl e \<Rightarrow> Inl e
      | Inr False \<Rightarrow> Inr res
      | Inr True \<Rightarrow>
          Inr (fold (\<lambda>m r. roots_add m fileToScan r)
                 (regex_matches (storeDir opts) 0 (content fs fileToScan)) res))"

definition scanMapsFile :: "filesystem \<Rightarrow> GlobalOpts \<Rightarrow> path \<Rightarrow> Roots \<Rightarrow> errno + Roots" where
  "scanMapsFile fs opts mapsFile res =
     (case exists fs mapsFile of
        Inl e \<Rightarrow> Inl e
      | Inr False \<Rightarrow> Inr res
      | Inr True \<Rightarrow>
          Inr (fold (\<lambda>line r.
                  case match_map_line line of
                    None \<Rightarrow> r
                  | Some matchedPath \<Rightarrow>
                      if isInStore (storeDir opts) matchedPath
                      then roots_add matchedPath mapsFile r else r)
                 (getlines (content fs mapsFile)) res))"

text \<open>The loop over \<open>pathsToConsider\<close>: an error of \<open>read_symlink\<close> is logged only.\<close>

definition considerPath :: "filesystem \<Rightarrow> GlobalOpts \<Rightarrow> path \<Rightarrow> Roots \<Rightarrow> Roots" where
  "considerPath fs opts p res =
     (case read_symlink fs p of
        Inl e \<Rightarrow> res
      | Inr realPath \<Rightarrow>
          if isInStore (storeDir opts) realPath then roots_add realPath p res else res)"

text \<open>
  The handler around the loop over \<open>fd\<close>: \<open>ENOENT\<close> and \<open>EACCES\<close> are swallowed, any
  other error is thrown again.
\<close>

definition rethrown :: "errno option \<Rightarrow> errno option" where
  "rethrown err =
     (case err of
        None \<Rightarrow> None
      | Some e \<Rightarrow> if e \<noteq> ENOENT \<and> e \<noteq> EACCES then Some e else None)"

text \<open>The body of the loop over \<open>/proc\<close> for one entry.\<close>

definition scanProcEntry :: "filesystem \<Rightarrow> GlobalOpts \<Rightarrow> path \<Rightarrow> Roots \<Rightarrow> errno + Roots" where
  "scanProcEntry fs opts procEntry res =
     (if \<not> all_digits (filename procEntry) then Inr res
      else case is_directory fs procEntry of
        Inl e \<Rightarrow> Inl e
      | Inr False \<Rightarrow> Inr res
      | Inr True \<Rightarrow>
          (let fdDir = path_append procEntry ''fd'';
               pathsToConsider =
                 fold set_insert (fst (directory_iterator fs fdDir))
                   (set_insert (path_append procEntry ''cwd'')
                      (set_insert (path_append procEntry ''exe'') []))
           in case rethrown (snd (directory_iterator fs fdDir)) of
                Some e \<Rightarrow> Inl e
              | None \<Rightarrow>
                  (case scanFileContent fs opts (path_append procEntry ''environ'')
                          (fold (considerPath fs opts) pathsToConsider res) of
                     Inl e \<Rightarrow> Inl e
                   | Inr res1 \<Rightarrow> scanMapsFile fs opts (path_append procEntry ''maps'') res1)))"

fun scanProcEntries :: "filesystem \<Rightarrow> GlobalOpts \<Rightarrow> path list \<Rightarrow> Roots \<Rightarrow> errno + Roots" where
  "scanProcEntries fs opts [] res = Inr res"
| "scanProcEntries fs opts (procEntry # rest) res =
     (case scanProcEntry fs opts procEntry res of
        Inl e \<Rightarrow> Inl e
      | Inr res' \<Rightarrow> scanProcEntries fs opts rest res')"

definition getRuntimeRoots :: "filesystem \<Rightarrow> GlobalOpts \<Rightarrow> errno + Roots" where
  "getRuntimeRoots fs opts =
     (let procDir = ''/proc''
      in case exists fs procDir of
           Inl e \<Rightarrow> Inl e
         | Inr False \<Rightarrow> Inr []
         | Inr True \<Rightarrow>
             (case scanProcEntries fs opts (fst (directory_iterator fs procDir)) [] of
                Inl e \<Rightarrow> Inl e
              | Inr res \<Rightarrow>
                  (case snd (directory_iterator fs procDir) of
                     Some e \<Rightarrow> Inl e
                   | None \<Rightarrow>
                       (case scanFileContent fs opts ''/proc/sys/kernel/modprobe'' res of
                          Inl e \<Rightarrow> Inl e
                        | Inr res1 \<Rightarrow>
                            (case scanFileContent fs opts ''/proc/sys/kernel/fbsplash'' res1 of
                               Inl e \<Rightarrow> Inl e
                             | Inr res2 \<Rightarrow>
                                 scanFileContent fs opts ''/proc/sys/kernel/poweroff_cmd'' res2)))))"

section \<open>Serving one request\<close>

text \<open>
  \<open>send\<close> on the connection: the bytes are appended to what the client receives. The
  return value is not looked at by the program.
\<close>

definition send :: "string \<Rightarrow> string \<Rightarrow> string" where
  "send buf out = out @ buf"

definition sendRoots :: "Roots \<Rightarrow> string \<Rightarrow> string" where
  "sendRoots roots out =
     fold (\<lambda>(rootInStore, externalRoots) out1.
             fold (\<lambda>externalRoot out2.
                     send [CHR 0x0A] (send externalRoot (send [CHR 0x09] (send rootInStore out2))))
               externalRoots out1)
       roots out"

definition sendDeadLinks :: "path_set \<Rightarrow> string \<Rightarrow> string" where
  "sendDeadLinks dead out =
     fold (\<lambda>deadLink out1. send [CHR 0x0A] (send deadLink out1)) dead out"

definition standardRoots :: "GlobalOpts \<Rightarrow> path_set" where
  "standardRoots opts =
     set_insert (path_append (stateDir opts) ''gcroots'')
       (set_insert (path_append (stateDir opts) ''profiles'') [])"

text \<open>
  What the body of the accept loop computes before it sends: the trace result with the
  runtime roots inserted, or the error that leaves \<open>getRuntimeRoots\<close>.
\<close>

definition scan :: "filesystem \<Rightarrow> GlobalOpts \<Rightarrow> errno + TraceResult" where
  "scan fs opts =
     (let traceResult = followPathsToStore fs opts (standardRoots opts)
      in case getRuntimeRoots fs opts of
           Inl e \<Rightarrow> Inl e
         | Inr runtimeRoots \<Rightarrow>
             Inr (traceResult\<lparr>storeRoots :=
                    map_insert_range runtimeRoots (storeRoots traceResult)\<rparr>))"

definition respond :: "TraceResult \<Rightarrow> string" where
  "respond traceResult =
     sendDeadLinks (deadLinks traceResult)
       (send [CHR 0x0A] (sendRoots (storeRoots traceResult) []))"

text \<open>
  The buffers of the calls of \<open>send\<close> for one response, one after the other: four calls
  for every pair of a store path and a root, one for the separator, two for every dead
  link.
\<close>

definition sends :: "TraceResult \<Rightarrow> string list" where
  "sends traceResult =
     concat (map (\<lambda>e. concat (map (\<lambda>v. [fst e, [CHR 0x09], v, [CHR 0x0A]]) (snd e)))
               (storeRoots traceResult))
     @ [[CHR 0x0A]]
     @ concat (map (\<lambda>d. [d, [CHR 0x0A]]) (deadLinks traceResult))"

text \<open>
  One turn of the accept loop after a connection was accepted, with a client that reads
  all of the response: the bytes the client gets, or the error that nothing in \<open>main\<close>
  catches.
\<close>

definition serve :: "filesystem \<Rightarrow> GlobalOpts \<Rightarrow> errno + string" where
  "serve fs opts =
     (case scan fs opts of
        Inl e \<Rightarrow> Inl e
      | Inr traceResult \<Rightarrow> Inr (respond traceResult))"

section \<open>The daemon\<close>

text \<open>
  What \<open>main\<close> gets from the system before the accept loop: whether a file is at the
  socket path already, and the return values of \<open>socket\<close>, \<open>bind\<close> and \<open>listen\<close>.
\<close>

record startup_env =
  stale_file :: bool
  socket_ret :: int
  bind_ret :: int
  listen_ret :: int

text \<open>
  \<open>Aborted\<close>: an exception left \<open>main\<close>, which ends the process. \<open>Killed\<close>: a signal ended
  it.
\<close>

datatype proc_status = Running | Aborted | Killed

text \<open>\<open>served\<close>: for every connection accepted so far, the bytes sent on it.\<close>

record daemon =
  status :: proc_status
  socket_file :: bool
  served :: "string list"

text \<open>
  The statements before the loop. \<open>unlink\<close> removes the file at the socket path, a
  successful \<open>bind\<close> creates it.
\<close>

definition startup :: "startup_env \<Rightarrow> daemon" where
  "startup env =
     (if socket_ret env = 0
      then \<lparr>status = Aborted, socket_file = stale_file env, served = []\<rparr>
      else if bind_ret env = - 1
      then \<lparr>status = Aborted, socket_file = False, served = []\<rparr>
      else if listen_ret env = - 1
      then \<lparr>status = Aborted, socket_file = True, served = []\<rparr>
      else \<lparr>status = Running, socket_file = True, served = []\<rparr>)"

datatype signal = SIGINT | SIGTERM | SIGHUP

text \<open>
  What can happen while the daemon waits in \<open>accept\<close>: a connection arrives, \<open>accept\<close>
  fails, or a signal is delivered. A connection comes with the file system as the scan
  for it will find it and with the client's behaviour: \<open>None\<close> when the client reads the
  whole response, \<open>Some k\<close> when it has closed its end after \<open>k\<close> calls of \<open>send\<close>.
  The program installs no signal handler and calls \<open>send\<close> with the flags 0: each of the
  three signals, and the \<open>SIGPIPE\<close> that a \<open>send\<close> to a closed connection raises, ends the
  process by its default action, and no statement of \<open>main\<close> runs after it.
\<close>

datatype event = Connection filesystem "nat option" | AcceptError errno | Signal signal

definition step :: "GlobalOpts \<Rightarrow> event \<Rightarrow> daemon \<Rightarrow> daemon" where
  "step opts ev d =
     (if status d \<noteq> Running then d
      else case ev of
        Connection fs client \<Rightarrow>
          (case scan fs opts of
             Inl e \<Rightarrow> d\<lparr>status := Aborted\<rparr>
           | Inr traceResult \<Rightarrow>
               (case client of
                  None \<Rightarrow> d\<lparr>served := served d @ [respond traceResult]\<rparr>
                | Some k \<Rightarrow>
                    if k < length (sends traceResult)
                    then d\<lparr>status := Killed,
                           served := served d @ [concat (take k (sends traceResult))]\<rparr>
                    else d\<lparr>served := served d @ [respond traceResult]\<rparr>))
      | AcceptError e \<Rightarrow> if e = EINTR then d else d\<lparr>status := Aborted\<rparr>
      | Signal sig \<Rightarrow> d\<lparr>status := Killed\<rparr>)"

definition main_loop :: "GlobalOpts \<Rightarrow> event list \<Rightarrow> daemon \<Rightarrow> daemon" where
  "main_loop opts evs d = fold (step opts) evs d"

definition main :: "GlobalOpts \<Rightarrow> startup_env \<Rightarrow> event list \<Rightarrow> daemon" where
  "main opts env evs = main_loop opts evs (startup env)"

section \<open>The command line\<close>

datatype has_arg = no_argument | required_argument

text \<open>
  An entry of \<open>long_options\<close>: the name, whether an argument follows, the value stored
  through the \<open>flag\<close> pointer when there is one, and \<open>val\<close>.
\<close>

record long_option =
  name :: string
  arg :: has_arg
  flag :: bool
  val :: char

definition long_options :: "long_option list" where
  "long_options =
     [\<lparr>name = ''verbose'', arg = no_argument, flag = True, val = CHR 0x01\<rparr>,
      \<lparr>name = ''socket_path'', arg = required_argument, flag = False, val = CHR ''l''\<rparr>,
      \<lparr>name = ''store_dir'', arg = required_argument, flag = False, val = CHR ''s''\<rparr>,
      \<lparr>name = ''state_dir'', arg = required_argument, flag = False, val = CHR ''d''\<rparr>]"

definition optstring :: string where
  "optstring = ''vsl:''"

text \<open>
  What one call of \<open>getopt_long\<close> returns. \<open>Opt c optarg\<close>: the return value \<open>c\<close> with
  \<open>optarg\<close> as the call leaves it (the null pointer is \<open>None\<close>). \<open>Flagged\<close>: the return
  value 0 after the value of a long option was stored through its \<open>flag\<close> pointer.
  \<open>Overrun\<close>: the name is no entry of \<open>long_options\<close>; the array has no terminating
  entry, so the search reads past its end.
\<close>

datatype getopt_ret = End | Opt char "string option" | Flagged | Overrun

text \<open>How the option string declares a short option.\<close>

fun short_lookup :: "string \<Rightarrow> char \<Rightarrow> has_arg option" where
  "short_lookup [] c = None"
| "short_lookup (x # rest) c =
     (if x = c \<and> c \<noteq> CHR '':'' \<and> c \<noteq> CHR '';''
      then (case rest of
              y # _ \<Rightarrow> if y = CHR '':'' then Some required_argument else Some no_argument
            | [] \<Rightarrow> Some no_argument)
      else short_lookup rest c)"

text \<open>
  The next short option of a cluster \<open>c # rest\<close>; \<open>args\<close> are the arguments after the
  cluster's. The result has the rest of the cluster and the arguments left.
\<close>

definition short_option ::
  "char \<Rightarrow> string \<Rightarrow> string list \<Rightarrow> getopt_ret \<times> string \<times> string list" where
  "short_option c rest args =
     (case short_lookup optstring c of
        None \<Rightarrow> (Opt CHR ''?'' None, rest, args)
      | Some no_argument \<Rightarrow> (Opt c None, rest, args)
      | Some required_argument \<Rightarrow>
          if rest \<noteq> [] then (Opt c (Some rest), [], args)
          else (case args of
                  [] \<Rightarrow> (Opt CHR ''?'' None, [], [])
                | a # args' \<Rightarrow> (Opt c (Some a), [], args')))"

text \<open>A long option \<open>--body\<close>, where \<open>body\<close> is \<open>name\<close> or \<open>name=value\<close>.\<close>

definition long_option_ret ::
  "string \<Rightarrow> string list \<Rightarrow> getopt_ret \<times> string \<times> string list" where
  "long_option_ret body args =
     (let nm = takeWhile (\<lambda>c. c \<noteq> CHR ''='') body;
          given = drop (length nm) body
      in case find (\<lambda>lo. name lo = nm) long_options of
           None \<Rightarrow> (Overrun, [], args)
         | Some lo \<Rightarrow>
             (let ret = (if flag lo then Flagged else Opt (val lo) None);
                  ret_with = (\<lambda>v. if flag lo then Flagged else Opt (val lo) (Some v))
              in case given of
                   _ # v \<Rightarrow>
                     if arg lo = required_argument then (ret_with v, [], args)
                     else (Opt CHR ''?'' None, [], args)
                 | [] \<Rightarrow>
                     if arg lo = required_argument
                     then (case args of
                             [] \<Rightarrow> (Opt CHR ''?'' None, [], [])
                           | a # args' \<Rightarrow> (ret_with a, [], args'))
                     else (ret, [], args)))"

text \<open>
  \<open>getopt_long\<close> on the rest of the current cluster and the arguments not yet scanned.
  An argument that is no option is passed over; \<open>--\<close> ends the options.
\<close>

fun getopt_long :: "string \<Rightarrow> string list \<Rightarrow> getopt_ret \<times> string \<times> string list" where
  "getopt_long (c # rest) args = short_option c rest args"
| "getopt_long [] [] = (End, [], [])"
| "getopt_long [] (a # args) =
     (case a of
        x # y # body \<Rightarrow>
          if x = CHR ''-'' \<and> y = CHR ''-'' then
            (if body = [] then (End, [], args) else long_option_ret body args)
          else if x = CHR ''-'' then short_option y body args
          else getopt_long [] args
      | _ \<Rightarrow> getopt_long [] args)"

text \<open>
  How \<open>parseCmdLine\<close> ends: it returns the options, or \<open>usage\<close> exits with status 1, or
  a \<open>fs::path\<close> is constructed from the null pointer \<open>optarg\<close>, or \<open>getopt_long\<close>
  read past the end of \<open>long_options\<close>, or the \<open>default\<close> branch of the \<open>switch\<close> calls
  \<open>abort\<close>.
\<close>

datatype parse_result =
  Parsed GlobalOpts | Usage_exit | Null_optarg | Array_overrun | Invalid_char_abort

definition defaultOpts :: GlobalOpts where
  "defaultOpts =
     \<lparr>storeDir = ''/nix/store'', stateDir = ''/nix/var/nix'',
      socketPath = ''/nix/var/nix/gc-socket/socket'', verbosity = Quiet\<rparr>"

definition scan_size :: "string \<Rightarrow> string list \<Rightarrow> nat" where
  "scan_size cluster args = length cluster + sum_list (map (\<lambda>a. Suc (length a)) args)"


lemma short_option_smaller:
  "short_option c rest args = (r, cluster', args') \<Longrightarrow>
   scan_size cluster' args' < scan_size (c # rest) args"
  unfolding short_option_def scan_size_def
  by (cases "short_lookup optstring c"; cases args; auto split: has_arg.splits if_splits)

lemma long_option_ret_smaller:
  "long_option_ret body args = (r, cluster', args') \<Longrightarrow>
   scan_size cluster' args' \<le> scan_size [] args"
  unfolding long_option_ret_def scan_size_def Let_def
  by (cases "find (\<lambda>lo. name lo = takeWhile (\<lambda>c. c \<noteq> CHR ''='') body) long_options";
      cases args; cases "drop (length (takeWhile (\<lambda>c. c \<noteq> CHR ''='') body)) body";
      auto split: if_splits)


lemma getopt_long_smaller:
  "getopt_long cluster args = (r, cluster', args') \<Longrightarrow> r \<noteq> End \<Longrightarrow>
   scan_size cluster' args' < scan_size cluster args"
proof (induction cluster args rule: getopt_long.induct)
  case (1 c rest args)
  then show ?case using short_option_smaller by simp
next
  case 2
  then show ?case by simp
next
  case (3 a args)
  have skip: "scan_size [] args < scan_size [] (a # args)"
    by (simp add: scan_size_def)
  show ?case
  proof (cases a)
    case Nil
    with 3 skip show ?thesis by fastforce
  next
    case outer: (Cons x a')
    show ?thesis
    proof (cases a')
      case Nil
      with outer 3 skip show ?thesis by fastforce
    next
      case (Cons y body)
      have a: "a = x # y # body" using outer Cons by simp
      have sz: "scan_size (y # body) args < scan_size [] (a # args)"
        by (simp add: scan_size_def a)
      show ?thesis
      proof (cases "x = CHR ''-''")
        case False
        with 3 a skip show ?thesis by fastforce
      next
        case dash: True
        show ?thesis
        proof (cases "y = CHR ''-''")
          case False
          with dash a "3.prems" have "short_option y body args = (r, cluster', args')" by simp
          from short_option_smaller [OF this] sz show ?thesis by simp
        next
          case True
          with dash a "3.prems" have "long_option_ret body args = (r, cluster', args')"
            by (simp split: if_splits)
          from long_option_ret_smaller [OF this] skip show ?thesis by simp
        qed
      qed
    qed
  qed
qed

text \<open>The loop of \<open>parseCmdLine\<close> with its \<open>switch\<close>.\<close>

function parse_loop :: "GlobalOpts \<Rightarrow> string \<Rightarrow> string list \<Rightarrow> parse_result" where
  "parse_loop res cluster args =
     (case getopt_long cluster args of
        (End, _, _) \<Rightarrow> Parsed res
      | (Overrun, _, _) \<Rightarrow> Array_overrun
      | (Flagged, cluster', args') \<Rightarrow> parse_loop (res\<lparr>verbosity := Verbose\<rparr>) cluster' args'
      | (Opt c optarg, cluster', args') \<Rightarrow>
          if c = CHR ''?'' then Usage_exit
          else if c = CHR ''v'' then parse_loop (res\<lparr>verbosity := Verbose\<rparr>) cluster' args'
          else if c = CHR ''s'' then
            (case optarg of
               None \<Rightarrow> Null_optarg
             | Some a \<Rightarrow> parse_loop (res\<lparr>storeDir := a\<rparr>) cluster' args')
          else if c = CHR ''d'' then
            (case optarg of
               None \<Rightarrow> Null_optarg
             | Some a \<Rightarrow> parse_loop (res\<lparr>stateDir := a\<rparr>) cluster' args')
          else if c = CHR ''l'' then
            (case optarg of
               None \<Rightarrow> Null_optarg
             | Some a \<Rightarrow> parse_loop (res\<lparr>socketPath := a\<rparr>) cluster' args')
          else Invalid_char_abort)"
  by pat_completeness auto
termination
proof (relation "measure (\<lambda>(res, cluster, args). scan_size cluster args)", goal_cases)
  case 1
  show ?case by simp
next
  case 2
  then show ?case by (auto dest: getopt_long_smaller getopt_long_smaller [OF sym])
next
  case 3
  then show ?case by (auto dest: getopt_long_smaller getopt_long_smaller [OF sym])
next
  case 4
  then show ?case by (auto dest: getopt_long_smaller getopt_long_smaller [OF sym])
next
  case 5
  then show ?case by (auto dest: getopt_long_smaller getopt_long_smaller [OF sym])
next
  case 6
  then show ?case by (auto dest: getopt_long_smaller getopt_long_smaller [OF sym])
qed

text \<open>\<open>parseCmdLine\<close> on \<open>argv[1]\<close>, \<open>argv[2]\<close>, ...\<close>

definition parseCmdLine :: "string list \<Rightarrow> parse_result" where
  "parseCmdLine args = parse_loop defaultOpts [] args"


section \<open>Predicates of the specification\<close>

text \<open>The order of a \<open>std::set\<close> of paths: strictly increasing by \<open>path::compare\<close>.\<close>

definition sorted_paths :: "path list \<Rightarrow> bool" where
  "sorted_paths xs = sorted_wrt path_less xs"

definition roots_sorted :: "Roots \<Rightarrow> bool" where
  "roots_sorted m = (sorted_paths (map fst m) \<and> (\<forall>e \<in> set m. sorted_paths (snd e)))"

text \<open>The map has the store path \<open>k\<close> with the external root \<open>v\<close>, both up to equivalence.\<close>

definition has_edge :: "Roots \<Rightarrow> path \<Rightarrow> path \<Rightarrow> bool" where
  "has_edge m k v =
     (\<exists>e \<in> set m. pkey (fst e) = pkey k \<and> (\<exists>v' \<in> set (snd e). pkey v' = pkey v))"

text \<open>
  The store root, a separator and exactly one component that obeys the lexical rule of
  store object names.
\<close>

definition store_object_path :: "path \<Rightarrow> path \<Rightarrow> bool" where
  "store_object_path sd k =
     (take (length sd + 1) k = sd @ ''/'' \<and> store_name (drop (length sd + 1) k))"

text \<open>
  The keys the tracer inserts: a link target that \<open>isInStore\<close> accepts, or the store root
  joined with a file name.
\<close>

definition tracer_key :: "path \<Rightarrow> path \<Rightarrow> bool" where
  "tracer_key sd k = (isInStore sd k \<or> (\<exists>n. k = path_append sd n \<and> CHR ''/'' \<notin> set n))"

text \<open>
  The lines of the two sections of a response: one line for every pair of a store path and
  one of its external roots, in the order of the map and of its sets; one line for every
  dead link.
\<close>

definition store_lines :: "Roots \<Rightarrow> string list" where
  "store_lines m =
     concat (map (\<lambda>e. map (\<lambda>v. fst e @ [CHR 0x09] @ v @ [CHR 0x0A]) (snd e)) m)"

definition dead_lines :: "path_set \<Rightarrow> string list" where
  "dead_lines ds = map (\<lambda>d. d @ [CHR 0x0A]) ds"

text \<open>
  The keys the runtime scanner inserts: a link target or the path of a memory map that
  \<open>isInStore\<close> accepts, or a match of \<open>storePathRegex\<close>.
\<close>

definition runtime_key :: "path \<Rightarrow> path \<Rightarrow> bool" where
  "runtime_key sd k = (isInStore sd k \<or> store_object_path sd k)"

text \<open>Where a symbolic link leads: the text of the link, taken from the link's directory.\<close>

definition link_target :: "filesystem \<Rightarrow> path \<Rightarrow> path option" where
  "link_target fs p =
     (case read_symlink fs p of
        Inl e \<Rightarrow> None
      | Inr link \<Rightarrow> Some (path_append (parent_path p) link))"

text \<open>Something is at the path: its status can be read and is not \<open>not_found\<close>.\<close>

definition present :: "filesystem \<Rightarrow> path \<Rightarrow> bool" where
  "present fs p =
     (case symlink_status fs p of
        Inl e \<Rightarrow> False
      | Inr ty \<Rightarrow> ty \<noteq> not_found)"

text \<open>
  A chain of one or two links that starts at \<open>a\<close> and ends in a store object: the last link
  of the chain and the path in the store it leads to, where something is.
\<close>

definition chain_end :: "filesystem \<Rightarrow> path \<Rightarrow> path \<Rightarrow> (path \<times> path) option" where
  "chain_end fs sd a =
     (case link_target fs a of
        None \<Rightarrow> None
      | Some b \<Rightarrow>
          if isInStore sd b
          then (if present fs b then Some (a, b) else None)
          else if symlink_status fs b = Inr symlink
          then (case link_target fs b of
                  None \<Rightarrow> None
                | Some t \<Rightarrow>
                    if isInStore sd t \<and> present fs t then Some (b, t)
                    else None)
          else None)"

text \<open>
  The tracer, started at \<open>r\<close>, comes to the link \<open>a\<close>: \<open>r\<close> is the link itself, or \<open>r\<close> is a
  directory, \<open>a\<close> is a link its recursive iteration yields, and nothing is thrown during
  the walk of \<open>r\<close>.
\<close>

definition reached :: "filesystem \<Rightarrow> GlobalOpts \<Rightarrow> path \<Rightarrow> path \<Rightarrow> bool" where
  "reached fs opts r a =
     (if symlink_status fs r = Inr symlink then a = r
      else if symlink_status fs r = Inr directory
      then list_ex (\<lambda>d. case d of Dirent p ty cs e \<Rightarrow> p = a \<and> ty = symlink)
             (preorder (fst (recursive_directory_iterator fs r))) \<and>
           snd (followPathToStore fs opts maxRecursionLevel \<lparr>storeRoots = [], deadLinks = []\<rparr>
                  r directory (fst (recursive_directory_iterator fs r))
                  (snd (recursive_directory_iterator fs r))) = None
      else False)"

text \<open>
  The pairs of a store path and one of its external roots, in the order of the map and of
  its sets, and the line emitted for a pair.
\<close>

definition edges :: "Roots \<Rightarrow> (path \<times> path) list" where
  "edges m = concat (map (\<lambda>e. map (\<lambda>v. (fst e, v)) (snd e)) m)"

definition edge_line :: "path \<times> path \<Rightarrow> string" where
  "edge_line e = fst e @ [CHR 0x09] @ snd e @ [CHR 0x0A]"

text \<open>
  The order of the pairs: by store path, and by external root for one store path, both
  compared as \<open>path::compare\<close> does.
\<close>

definition edge_less :: "path \<times> path \<Rightarrow> path \<times> path \<Rightarrow> bool" where
  "edge_less a b =
     (path_less (fst a) (fst b) \<or> (pkey (fst a) = pkey (fst b) \<and> path_less (snd a) (snd b)))"

section \<open>Example file systems\<close>

definition no_files :: filesystem where
  "no_files =
     \<lparr>symlink_status = (\<lambda>p. Inr not_found),
      recursive_directory_iterator = (\<lambda>p. ([], Some ENOENT)),
      read_symlink = (\<lambda>p. Inl ENOENT),
      exists = (\<lambda>p. Inr False),
      directory_iterator = (\<lambda>p. ([], Some ENOENT)),
      is_directory = (\<lambda>p. Inr False),
      content = (\<lambda>p. [])\<rparr>"

definition opts_sv :: GlobalOpts where
  "opts_sv =
     \<lparr>storeDir = ''/s'', stateDir = ''/v'', socketPath = ''/v/gc-socket/socket'',
      verbosity = Quiet\<rparr>"

definition env_ok :: startup_env where
  "env_ok = \<lparr>stale_file = False, socket_ret = 3, bind_ret = 0, listen_ret = 0\<rparr>"

text \<open>\<open>/v/gcroots/a \<rightarrow> /t/b \<rightarrow> /t/c \<rightarrow> /s/obj\<close>\<close>

definition fs_over_budget :: filesystem where
  "fs_over_budget = no_files
     \<lparr>symlink_status := (symlink_status no_files)
        (''/v/gcroots'' := Inr directory, ''/v/gcroots/a'' := Inr symlink,
         ''/t/b'' := Inr symlink, ''/t/c'' := Inr symlink, ''/s/obj'' := Inr regular),
      recursive_directory_iterator := (recursive_directory_iterator no_files)
        (''/v/gcroots'' := ([Dirent ''/v/gcroots/a'' symlink [] None], None)),
      read_symlink := (read_symlink no_files)
        (''/v/gcroots/a'' := Inr ''/t/b'', ''/t/b'' := Inr ''/t/c'', ''/t/c'' := Inr ''/s/obj''),
      exists := (exists no_files) (''/s/obj'' := Inr True)\<rparr>"

text \<open>\<open>/v/gcroots/a \<rightarrow> /home/u/profile \<rightarrow> /s/xyz-thing\<close>\<close>

definition fs_two_hop :: filesystem where
  "fs_two_hop = no_files
     \<lparr>symlink_status := (symlink_status no_files)
        (''/v/gcroots'' := Inr directory, ''/v/gcroots/a'' := Inr symlink,
         ''/home/u/profile'' := Inr symlink, ''/s/xyz-thing'' := Inr directory),
      recursive_directory_iterator := (recursive_directory_iterator no_files)
        (''/v/gcroots'' := ([Dirent ''/v/gcroots/a'' symlink [] None], None)),
      read_symlink := (read_symlink no_files)
        (''/v/gcroots/a'' := Inr ''/home/u/profile'', ''/home/u/profile'' := Inr ''/s/xyz-thing''),
      exists := (exists no_files) (''/s/xyz-thing'' := Inr True)\<rparr>"

text \<open>Process 42 runs \<open>/s/abc-hello/bin/sh\<close>; its \<open>fd\<close> directory is not readable.\<close>

definition fs_runtime :: filesystem where
  "fs_runtime = no_files
     \<lparr>read_symlink := (read_symlink no_files)
        (''/proc/42/exe'' := Inr ''/s/abc-hello/bin/sh'', ''/proc/42/cwd'' := Inr ''/''),
      exists := (exists no_files) (''/proc'' := Inr True),
      directory_iterator := (directory_iterator no_files)
        (''/proc'' := ([''/proc/42''], None), ''/proc/42/fd'' := ([], Some EACCES)),
      is_directory := (is_directory no_files) (''/proc/42'' := Inr True)\<rparr>"

text \<open>\<open>/v/gcroots/a \<rightarrow> /s/gone\<close>, and nothing is at \<open>/s/gone\<close>.\<close>

definition fs_dead_in_store :: filesystem where
  "fs_dead_in_store = no_files
     \<lparr>symlink_status := (symlink_status no_files)
        (''/v/gcroots'' := Inr directory, ''/v/gcroots/a'' := Inr symlink),
      recursive_directory_iterator := (recursive_directory_iterator no_files)
        (''/v/gcroots'' := ([Dirent ''/v/gcroots/a'' symlink [] None], None)),
      read_symlink := (read_symlink no_files) (''/v/gcroots/a'' := Inr ''/s/gone'')\<rparr>"

text \<open>\<open>/v/gcroots/a \<rightarrow> /s/abc\<close>, and process 42 runs \<open>/s/abc\<close>.\<close>

definition fs_both :: filesystem where
  "fs_both = no_files
     \<lparr>symlink_status := (symlink_status no_files)
        (''/v/gcroots'' := Inr directory, ''/v/gcroots/a'' := Inr symlink,
         ''/s/abc'' := Inr regular),
      recursive_directory_iterator := (recursive_directory_iterator no_files)
        (''/v/gcroots'' := ([Dirent ''/v/gcroots/a'' symlink [] None], None)),
      read_symlink := (read_symlink no_files)
        (''/v/gcroots/a'' := Inr ''/s/abc'', ''/proc/42/exe'' := Inr ''/s/abc'',
         ''/proc/42/cwd'' := Inr ''/''),
      exists := (exists no_files) (''/proc'' := Inr True, ''/s/abc'' := Inr True),
      directory_iterator := (directory_iterator no_files)
        (''/proc'' := ([''/proc/42''], None), ''/proc/42/fd'' := ([], None)),
      is_directory := (is_directory no_files) (''/proc/42'' := Inr True)\<rparr>"

text \<open>Reading \<open>/proc/1/fd\<close> fails with \<open>EIO\<close> (5).\<close>

definition fs_fd_error :: filesystem where
  "fs_fd_error = no_files
     \<lparr>exists := (exists no_files) (''/proc'' := Inr True),
      directory_iterator := (directory_iterator no_files)
        (''/proc'' := ([''/proc/1''], None), ''/proc/1/fd'' := ([], Some 5)),
      is_directory := (is_directory no_files) (''/proc/1'' := Inr True)\<rparr>"

text \<open>
  Three roots under \<open>/v/gcroots\<close> (a direct link, a link through a profile and a dead
  link), a regular file named like a store object, and process 42 with an executable, an
  open file, an environment and a memory map in the store.
\<close>

definition fs_mixed :: filesystem where
  "fs_mixed = no_files
     \<lparr>symlink_status := (symlink_status no_files)
        (''/v/gcroots'' := Inr directory, ''/v/gcroots/a'' := Inr symlink,
         ''/v/gcroots/b'' := Inr symlink, ''/v/gcroots/dead'' := Inr symlink,
         ''/v/gcroots/abc-hello'' := Inr regular,
         ''/home/u/profile'' := Inr symlink, ''/s/xyz-thing'' := Inr directory,
         ''/s/abc-hello'' := Inr directory),
      recursive_directory_iterator := (recursive_directory_iterator no_files)
        (''/v/gcroots'' :=
           ([Dirent ''/v/gcroots/b'' symlink [] None,
             Dirent ''/v/gcroots/dead'' symlink [] None,
             Dirent ''/v/gcroots/abc-hello'' regular [] None,
             Dirent ''/v/gcroots/a'' symlink [] None], None)),
      read_symlink := (read_symlink no_files)
        (''/v/gcroots/a'' := Inr ''/s/abc-hello'',
         ''/v/gcroots/b'' := Inr ''/home/u/profile'',
         ''/home/u/profile'' := Inr ''/s/xyz-thing'',
         ''/v/gcroots/dead'' := Inr ''/tmp/gone'',
         ''/proc/42/exe'' := Inr ''/s/def-bin'',
         ''/proc/42/cwd'' := Inr ''/home/u'',
         ''/proc/42/fd/3'' := Inr ''/s/abc-hello''),
      exists := (exists no_files)
        (''/proc'' := Inr True, ''/s/abc-hello'' := Inr True, ''/s/xyz-thing'' := Inr True,
         ''/proc/42/environ'' := Inr True, ''/proc/42/maps'' := Inr True),
      directory_iterator := (directory_iterator no_files)
        (''/proc'' := ([''/proc/42'', ''/proc/self''], None),
         ''/proc/42/fd'' := ([''/proc/42/fd/3''], None)),
      is_directory := (is_directory no_files) (''/proc/42'' := Inr True),
      content := (content no_files)
        (''/proc/42/environ'' := ''PATH=/s/ghi-env/bin'',
         ''/proc/42/maps'' :=
           ''7f00-7f01 r-xp 00000000 08:01 1234 /s/def-bin'' @ [CHR 0x0A])\<rparr>"

text \<open>
  \<open>/v/gcroots/p/r \<rightarrow> /s/obj\<close> and \<open>/v/gcroots/p-old \<rightarrow> /s/obj\<close>, the directory \<open>p\<close> listed after
  \<open>p-old\<close>; and the same with \<open>p\<close> listed first.
\<close>

definition fs_order :: filesystem where
  "fs_order = no_files
     \<lparr>symlink_status := (symlink_status no_files)
        (''/v/gcroots'' := Inr directory, ''/v/gcroots/p'' := Inr directory,
         ''/v/gcroots/p/r'' := Inr symlink, ''/v/gcroots/p-old'' := Inr symlink,
         ''/s/obj'' := Inr regular),
      recursive_directory_iterator := (recursive_directory_iterator no_files)
        (''/v/gcroots'' :=
           ([Dirent ''/v/gcroots/p-old'' symlink [] None,
             Dirent ''/v/gcroots/p'' directory [Dirent ''/v/gcroots/p/r'' symlink [] None] None],
            None)),
      read_symlink := (read_symlink no_files)
        (''/v/gcroots/p/r'' := Inr ''/s/obj'', ''/v/gcroots/p-old'' := Inr ''/s/obj''),
      exists := (exists no_files) (''/s/obj'' := Inr True)\<rparr>"

definition fs_order_listed_otherwise :: filesystem where
  "fs_order_listed_otherwise = fs_order
     \<lparr>recursive_directory_iterator := (recursive_directory_iterator no_files)
        (''/v/gcroots'' :=
           ([Dirent ''/v/gcroots/p'' directory [Dirent ''/v/gcroots/p/r'' symlink [] None] None,
             Dirent ''/v/gcroots/p-old'' symlink [] None],
            None))\<rparr>"

section \<open>What \<open>isInStore\<close> tests\<close>

text \<open>
  \<open>isInStore\<close> accepts a path when the elements of the store directory are the first
  elements of the path, and it accepts the empty path: there \<open>std::search\<close> returns the
  end of the path, which is its beginning.
\<close>

lemma search_zero_iff: "search hay needle = 0 \<longleftrightarrow> hay = [] \<or> prefix needle hay"
proof (cases hay)
  case Nil
  then show ?thesis by simp
next
  case (Cons h hs)
  have "take (length needle) hay = needle \<longleftrightarrow> prefix needle hay"
  proof
    assume "take (length needle) hay = needle"
    then show "prefix needle hay" using take_is_prefix [of "length needle" hay] by simp
  next
    assume "prefix needle hay"
    then obtain zs where "hay = needle @ zs" by (auto simp: prefix_def)
    then show "take (length needle) hay = needle" by simp
  qed
  with Cons show ?thesis by simp
qed

lemma fields_not_Nil: "sep_fields p \<noteq> []"
  by (induction p) (auto split: list.splits)

lemma elems_Nil_iff: "elems k = [] \<longleftrightarrow> k = []"
proof (cases k)
  case Nil
  then show ?thesis by (simp add: elems_def rel_elems_def has_root_directory_def)
next
  case (Cons c cs)
  show ?thesis
  proof (cases "c = CHR ''/''")
    case True
    with Cons show ?thesis by (simp add: elems_def has_root_directory_def)
  next
    case False
    obtain f fs where f: "sep_fields cs = f # fs"
      using fields_not_Nil [of cs] by (cases "sep_fields cs") auto
    with False Cons have "sep_fields k = (c # f) # fs" by simp
    then have "filter (\<lambda>f. f \<noteq> []) (sep_fields k) \<noteq> []" by simp
    then have "rel_elems k \<noteq> []" by (simp add: rel_elems_def Let_def)
    with Cons show ?thesis by (simp add: elems_def)
  qed
qed

lemma isInStore_iff: "isInStore sd k \<longleftrightarrow> k = [] \<or> prefix (elems sd) (elems k)"
  by (simp add: isInStore_def search_zero_iff elems_Nil_iff)

section \<open>Ordered containers: insertion\<close>

lemma insort_key_strict:
  fixes f :: "'a \<Rightarrow> 'b::linorder"
  shows "sorted_wrt (\<lambda>a b. f a < f b) xs \<Longrightarrow> \<forall>y \<in> set xs. f y \<noteq> f x \<Longrightarrow>
         sorted_wrt (\<lambda>a b. f a < f b) (insort_key f x xs)"
proof (induction xs)
  case Nil
  show ?case by simp
next
  case (Cons y ys)
  show ?case
  proof (cases "f x \<le> f y")
    case True
    with Cons.prems have "f x < f y" by force
    with Cons.prems True show ?thesis by (auto simp: set_insort_key)
  next
    case False
    with Cons show ?thesis by (auto simp: set_insort_key)
  qed
qed

lemma set_insert_sorted: "sorted_paths xs \<Longrightarrow> sorted_paths (set_insert x xs)"
  unfolding sorted_paths_def set_insert_def path_less_def
  using insort_key_strict [of pkey xs x] by auto

lemma set_insert_keeps: "y \<in> set xs \<Longrightarrow> y \<in> set (set_insert x xs)"
  by (auto simp: set_insert_def set_insort_key)

lemma set_insert_has: "\<exists>y \<in> set (set_insert x xs). pkey y = pkey x"
  by (auto simp: set_insert_def set_insort_key)

lemma roots_add_existing_keys:
  "map fst (map (\<lambda>e. if pkey (fst e) = pkey k then (fst e, set_insert v (snd e)) else e) m)
   = map fst m"
  by (induction m) auto

lemma keys_roots_add: "fst ` set (roots_add k v m) \<subseteq> insert k (fst ` set m)"
proof (cases "\<exists>e \<in> set m. pkey (fst e) = pkey k")
  case True
  have "fst ` set (roots_add k v m) = set (map fst (roots_add k v m))" by simp
  also have "\<dots> = set (map fst m)"
    using True roots_add_existing_keys [of k v m] by (simp only: roots_add_def if_True)
  finally show ?thesis by auto
next
  case False
  then show ?thesis by (auto simp: roots_add_def set_insort_key)
qed

lemma roots_add_sorted:
  assumes "roots_sorted m"
  shows "roots_sorted (roots_add k v m)"
proof (cases "\<exists>e \<in> set m. pkey (fst e) = pkey k")
  case True
  let ?g = "\<lambda>e. if pkey (fst e) = pkey k then (fst e, set_insert v (snd e)) else e"
  have eq: "roots_add k v m = map ?g m" using True by (simp only: roots_add_def if_True)
  have keys: "sorted_paths (map fst (map ?g m))"
    using assms roots_add_existing_keys [of k v m] by (simp only: roots_sorted_def)
  have vals: "sorted_paths (snd e)" if "e \<in> set (map ?g m)" for e
  proof -
    from that have "e \<in> ?g ` set m" by simp
    then obtain e' where e': "e' \<in> set m" "e = ?g e'" by (rule imageE)
    then have "sorted_paths (snd e')" using assms by (simp add: roots_sorted_def)
    with e'(2) show ?thesis by (auto simp: set_insert_sorted)
  qed
  show ?thesis unfolding roots_sorted_def eq using keys vals by blast
next
  case False
  have "sorted_wrt (\<lambda>a b. pkey (fst a) < pkey (fst b)) m"
    using assms by (simp add: roots_sorted_def sorted_paths_def sorted_wrt_map path_less_def)
  from insort_key_strict [of "\<lambda>e. pkey (fst e)" m "(k, [v])", OF this] False
  have "sorted_wrt (\<lambda>a b. pkey (fst a) < pkey (fst b)) (insort_key (\<lambda>e. pkey (fst e)) (k, [v]) m)"
    by auto
  with False assms show ?thesis
    by (auto simp: roots_add_def roots_sorted_def sorted_paths_def sorted_wrt_map path_less_def
        set_insort_key)
qed

lemma has_edge_roots_add_mono:
  assumes "has_edge m k v"
  shows "has_edge (roots_add k' v' m) k v"
proof -
  from assms obtain e w where
    e: "e \<in> set m" "pkey (fst e) = pkey k" "w \<in> set (snd e)" "pkey w = pkey v"
    unfolding has_edge_def by blast
  show ?thesis
  proof (cases "\<exists>e \<in> set m. pkey (fst e) = pkey k'")
    case True
    let ?g = "\<lambda>e. if pkey (fst e) = pkey k' then (fst e, set_insert v' (snd e)) else e"
    have eq: "roots_add k' v' m = map ?g m" using True by (simp only: roots_add_def if_True)
    have "?g e \<in> set (map ?g m)" using e(1) by simp
    moreover have "pkey (fst (?g e)) = pkey k" using e(2) by simp
    moreover have "w \<in> set (snd (?g e))" using e(3) set_insert_keeps by simp
    ultimately show ?thesis unfolding has_edge_def eq using e(4) by blast
  next
    case False
    then have "e \<in> set (roots_add k' v' m)" using e(1) by (simp add: roots_add_def set_insort_key)
    then show ?thesis unfolding has_edge_def using e(2,3,4) by blast
  qed
qed

lemma has_edge_roots_add: "has_edge (roots_add k v m) k v"
proof (cases "\<exists>e \<in> set m. pkey (fst e) = pkey k")
  case True
  then obtain e where e: "e \<in> set m" "pkey (fst e) = pkey k" by blast
  let ?g = "\<lambda>e. if pkey (fst e) = pkey k then (fst e, set_insert v (snd e)) else e"
  have "?g e \<in> set (map ?g m)" using e(1) by simp
  moreover have "pkey (fst (?g e)) = pkey k" using e(2) by simp
  moreover have "\<exists>w \<in> set (snd (?g e)). pkey w = pkey v" using e(2) set_insert_has by simp
  ultimately have "\<exists>e' \<in> set (map ?g m). pkey (fst e') = pkey k \<and> (\<exists>w \<in> set (snd e'). pkey w = pkey v)"
    by blast
  with True show ?thesis by (simp add: has_edge_def roots_add_def)
next
  case False
  then show ?thesis by (auto simp: has_edge_def roots_add_def set_insort_key)
qed

lemma map_insert_sorted:
  assumes "roots_sorted m" "sorted_paths (snd e)"
  shows "roots_sorted (map_insert e m)"
proof (cases "\<exists>e' \<in> set m. pkey (fst e') = pkey (fst e)")
  case True
  with assms show ?thesis by (simp add: map_insert_def)
next
  case False
  have "sorted_wrt (\<lambda>a b. pkey (fst a) < pkey (fst b)) m"
    using assms by (simp add: roots_sorted_def sorted_paths_def sorted_wrt_map path_less_def)
  from insort_key_strict [of "\<lambda>e. pkey (fst e)" m e, OF this] False
  have "sorted_wrt (\<lambda>a b. pkey (fst a) < pkey (fst b)) (insort_key (\<lambda>e. pkey (fst e)) e m)"
    by auto
  with False assms show ?thesis
    by (auto simp: map_insert_def roots_sorted_def sorted_paths_def sorted_wrt_map path_less_def
        set_insort_key)
qed

lemma map_insert_range_sorted:
  "roots_sorted m \<Longrightarrow> \<forall>e \<in> set src. sorted_paths (snd e) \<Longrightarrow>
   roots_sorted (map_insert_range src m)"
  unfolding map_insert_range_def
  by (induction src arbitrary: m) (simp_all add: map_insert_sorted)

lemma map_insert_range_keys:
  "fst ` set (map_insert_range src m) \<subseteq> fst ` set src \<union> fst ` set m"
  unfolding map_insert_range_def
proof (induction src arbitrary: m)
  case Nil
  show ?case by simp
next
  case (Cons e src)
  have "fst ` set (map_insert e m) \<subseteq> insert (fst e) (fst ` set m)"
    by (auto simp: map_insert_def set_insort_key)
  with Cons [of "map_insert e m"] show ?case by auto
qed

lemma map_insert_range_has_edge:
  "has_edge m k v \<Longrightarrow> has_edge (map_insert_range src m) k v"
  unfolding map_insert_range_def
proof (induction src arbitrary: m)
  case Nil
  then show ?case by simp
next
  case (Cons e src)
  have "has_edge (map_insert e m) k v"
    using Cons.prems by (auto simp: has_edge_def map_insert_def set_insort_key)
  from Cons.IH [OF this] show ?case by simp
qed

lemma match_here_sound: "match_here sd text = Some m \<Longrightarrow> store_object_path sd m"
  unfolding match_here_def store_object_path_def store_name_def Let_def
  by (auto split: if_splits list.splits dest: set_takeWhileD)

lemma regex_matches_sound:
  "m \<in> set (regex_matches sd k s) \<Longrightarrow> store_object_path sd m"
proof (induction sd k s rule: regex_matches.induct)
  case (1 sd k)
  then show ?case by simp
next
  case (2 sd k c cs)
  then show ?case by simp
next
  case (3 sd c cs)
  then show ?case by (auto split: option.splits dest: match_here_sound)
qed

section \<open>What the tracer preserves\<close>

lemma filename_no_sep: "CHR ''/'' \<notin> set (filename p)"
proof -
  have "\<forall>c \<in> set (takeWhile (\<lambda>c. c \<noteq> CHR ''/'') (rev p)). c \<noteq> CHR ''/''"
    using set_takeWhileD by fastforce
  then show ?thesis by (auto simp: filename_def)
qed

lemma regular_case_inv:
  assumes add: "\<And>k r res. P res \<Longrightarrow> tracer_key (storeDir opts) k \<Longrightarrow> P (add_root k r res)"
  shows "P res \<Longrightarrow> P (fst (regular_case fs opts res root))"
proof -
  assume p: "P res"
  have "tracer_key (storeDir opts) (path_append (storeDir opts) (filename root))"
    unfolding tracer_key_def using filename_no_sep by blast
  from add [OF p this] p show ?thesis
    unfolding regular_case_def Let_def by (auto split: sum.splits bool.splits)
qed

declare followPathToStore.simps [simp del]

lemma follow_invariant:
  assumes dead: "\<And>r res. P res \<Longrightarrow> P (mark_dead r res)"
  shows "(\<And>k r res. P res \<Longrightarrow> tracer_key (storeDir opts) k \<Longrightarrow> P (add_root k r res)) \<Longrightarrow>
         P res \<Longrightarrow> P (fst (followPathToStore fs opts n res root st sub err))"
    and "(\<And>k r res. P res \<Longrightarrow> tracer_key (storeDir opts) k \<Longrightarrow> P (add_root k r res)) \<Longrightarrow>
         P res \<Longrightarrow> P (fst (followChildren fs opts n res ds))"
proof (induction fs opts n res root st sub err and fs opts n res ds
    rule: followPathToStore_followChildren.induct)
  case (1 fs opts n res root st sub err)
  note add = "1.prems"(1)
  note p = "1.prems"(2)
  have reg: "P (fst (regular_case fs opts r root))" if "P r" for r
    using regular_case_inv [of P opts r fs root] add that by blast
  show ?case
  proof (cases "n < 0")
    case True
    then show ?thesis using p by (simp add: followPathToStore.simps [of fs opts n])
  next
    case nonneg: False
    show ?thesis
    proof (cases st)
      case directory
      have "P (fst (followChildren fs opts n res (preorder sub)))"
        using "1.IH"(1) [OF nonneg directory add p] .
      then show ?thesis using nonneg directory
        by (auto simp: followPathToStore.simps [of fs opts n] split: prod.splits option.splits)
    next
      case symlink
      show ?thesis
      proof (cases "read_symlink fs root")
        case (Inl e)
        then show ?thesis using nonneg symlink p
          by (simp add: followPathToStore.simps [of fs opts n])
      next
        case (Inr link)
        define target where "target = path_append (parent_path root) link"
        show ?thesis
        proof (cases "symlink_status fs target")
          case (Inl e)
          then show ?thesis using nonneg symlink Inr reg [OF dead [OF p]]
            by (simp add: followPathToStore.simps [of fs opts n] target_def Let_def)
        next
          case status: (Inr ts)
          define res1 where "res1 = (if ts = not_found then mark_dead root res else res)"
          have p1: "P res1" using p dead by (simp add: res1_def)
          show ?thesis
          proof (cases "isInStore (storeDir opts) target")
            case True
            then show ?thesis using nonneg symlink Inr status p1 add [of res1 target root]
              by (simp add: followPathToStore.simps [of fs opts n] target_def [symmetric]
                  res1_def [symmetric] Let_def tracer_key_def)
          next
            case False
            have "P (fst (followPathToStore fs opts (n - 1) res1 target ts
                     (fst (recursive_directory_iterator fs target))
                     (snd (recursive_directory_iterator fs target))))"
              using "1.IH"(2) [OF nonneg symlink Inr target_def status res1_def False add p1] .
            then show ?thesis using nonneg symlink Inr status False reg dead
              by (auto simp: followPathToStore.simps [of fs opts n] target_def [symmetric]
                  res1_def [symmetric] Let_def split: prod.splits option.splits)
          qed
        qed
      qed
    next
      case regular
      then show ?thesis using nonneg reg [OF p]
        by (simp add: followPathToStore.simps [of fs opts n])
    qed (use nonneg p in \<open>simp_all add: followPathToStore.simps [of fs opts n]\<close>)
  qed
next
  case (2 fs opts n res)
  then show ?case by simp
next
  case (3 fs opts n res p t cs e rest)
  note add = "3.prems"(1)
  have first: "P (fst (followPathToStore fs opts n res p t cs e))"
    using "3.IH"(1) [OF add "3.prems"(2)] .
  show ?case
  proof (cases "followPathToStore fs opts n res p t cs e")
    case (Pair res' err)
    show ?thesis
    proof (cases err)
      case None
      with Pair have eq: "followPathToStore fs opts n res p t cs e = (res', None)" by simp
      have "P res'" using first eq by simp
      note ih = "3.IH"(2) [OF eq [symmetric]]
      have "P (fst (followChildren fs opts n res' rest))"
        using ih add \<open>P res'\<close> by blast
      then show ?thesis using eq by simp
    next
      case (Some a)
      then show ?thesis using Pair first by simp
    qed
  qed
qed


lemma followPathToStore_path_inv:
  assumes dead: "\<And>r res. P res \<Longrightarrow> P (mark_dead r res)"
    and add: "\<And>k r res. P res \<Longrightarrow> tracer_key (storeDir opts) k \<Longrightarrow> P (add_root k r res)"
    and p: "P res"
  shows "P (followPathToStore_path fs opts n res root)"
proof (cases "symlink_status fs root")
  case (Inl e)
  with p show ?thesis by (simp add: followPathToStore_path_def)
next
  case (Inr st)
  with follow_invariant(1) [of P opts res fs n root st, OF dead add p] show ?thesis
    by (simp add: followPathToStore_path_def)
qed

lemma followPathsToStore_inv:
  assumes dead: "\<And>r res. P res \<Longrightarrow> P (mark_dead r res)"
    and add: "\<And>k r res. P res \<Longrightarrow> tracer_key (storeDir opts) k \<Longrightarrow> P (add_root k r res)"
    and p: "P \<lparr>storeRoots = [], deadLinks = []\<rparr>"
  shows "P (followPathsToStore fs opts roots)"
proof -
  have "P res \<Longrightarrow>
        P (fold (\<lambda>root res. followPathToStore_path fs opts maxRecursionLevel res root) roots res)"
    for res
  proof (induction roots arbitrary: res)
    case Nil
    then show ?case by simp
  next
    case (Cons r roots)
    from followPathToStore_path_inv [of P opts res fs maxRecursionLevel r, OF dead add Cons.prems]
    have "P (followPathToStore_path fs opts maxRecursionLevel res r)" .
    from Cons.IH [OF this] show ?case by simp
  qed
  from this [OF p] show ?thesis by (simp add: followPathsToStore_def)
qed

section \<open>What the runtime scanner preserves\<close>

lemma fold_roots_add_inv:
  assumes add: "\<And>k v m. Q m \<Longrightarrow> K k \<Longrightarrow> Q (roots_add k v m)"
  shows "Q res \<Longrightarrow> \<forall>k \<in> set ks. K k \<Longrightarrow> Q (fold (\<lambda>k r. roots_add k f r) ks res)"
  by (induction ks arbitrary: res) (simp_all add: add)

lemma scanFileContent_inv:
  assumes add: "\<And>k v m. Q m \<Longrightarrow> runtime_key (storeDir opts) k \<Longrightarrow> Q (roots_add k v m)"
    and q: "Q res" and r: "scanFileContent fs opts f res = Inr res'"
  shows "Q res'"
proof -
  have "\<forall>k \<in> set (regex_matches (storeDir opts) 0 (content fs f)). runtime_key (storeDir opts) k"
    using regex_matches_sound by (auto simp: runtime_key_def)
  from fold_roots_add_inv [of Q "runtime_key (storeDir opts)", OF add q this]
  show ?thesis using r q
    by (auto simp: scanFileContent_def split: sum.splits bool.splits)
qed

lemma scanMapsFile_inv:
  assumes add: "\<And>k v m. Q m \<Longrightarrow> runtime_key (storeDir opts) k \<Longrightarrow> Q (roots_add k v m)"
    and q: "Q res" and r: "scanMapsFile fs opts f res = Inr res'"
  shows "Q res'"
proof -
  have "Q r \<Longrightarrow> Q (fold (\<lambda>line r.
                  case match_map_line line of
                    None \<Rightarrow> r
                  | Some matchedPath \<Rightarrow>
                      if isInStore (storeDir opts) matchedPath
                      then roots_add matchedPath f r else r) ls r)" for ls r
    by (induction ls arbitrary: r) (auto simp: add runtime_key_def split: option.splits)
  from this [OF q] show ?thesis using r q
    by (auto simp: scanMapsFile_def split: sum.splits bool.splits)
qed

lemma considerPath_inv:
  assumes add: "\<And>k v m. Q m \<Longrightarrow> runtime_key (storeDir opts) k \<Longrightarrow> Q (roots_add k v m)"
    and q: "Q res"
  shows "Q (considerPath fs opts p res)"
  using q by (auto simp: considerPath_def add runtime_key_def split: sum.splits)

lemma fold_considerPath_inv:
  assumes add: "\<And>k v m. Q m \<Longrightarrow> runtime_key (storeDir opts) k \<Longrightarrow> Q (roots_add k v m)"
  shows "Q res \<Longrightarrow> Q (fold (considerPath fs opts) ps res)"
  by (induction ps arbitrary: res) (simp_all add: considerPath_inv [of Q opts, OF add])

lemma scanProcEntry_inv:
  assumes add: "\<And>k v m. Q m \<Longrightarrow> runtime_key (storeDir opts) k \<Longrightarrow> Q (roots_add k v m)"
    and q: "Q res" and r: "scanProcEntry fs opts p res = Inr res'"
  shows "Q res'"
proof (cases "\<not> all_digits (filename p) \<or> is_directory fs p = Inr False")
  case True
  with r q show ?thesis by (auto simp: scanProcEntry_def split: if_splits)
next
  case False
  define paths where "paths = fold set_insert (fst (directory_iterator fs (path_append p ''fd'')))
                   (set_insert (path_append p ''cwd'') (set_insert (path_append p ''exe'') []))"
  have q1: "Q (fold (considerPath fs opts) paths res)"
    using fold_considerPath_inv [of Q opts, OF add q] .
  from False r obtain res1 where
    env: "scanFileContent fs opts (path_append p ''environ'') (fold (considerPath fs opts) paths res)
            = Inr res1"
    and maps: "scanMapsFile fs opts (path_append p ''maps'') res1 = Inr res'"
    by (auto simp: scanProcEntry_def Let_def paths_def split: sum.splits bool.splits option.splits)
  from scanFileContent_inv [of Q opts, OF add q1 env] have "Q res1" .
  from scanMapsFile_inv [of Q opts, OF add this maps] show ?thesis .
qed

lemma scanProcEntries_inv:
  assumes add: "\<And>k v m. Q m \<Longrightarrow> runtime_key (storeDir opts) k \<Longrightarrow> Q (roots_add k v m)"
  shows "Q res \<Longrightarrow> scanProcEntries fs opts ps res = Inr res' \<Longrightarrow> Q res'"
proof (induction ps arbitrary: res)
  case Nil
  then show ?case by simp
next
  case (Cons p ps)
  from Cons.prems(2) obtain res1 where
    one: "scanProcEntry fs opts p res = Inr res1"
    and rest: "scanProcEntries fs opts ps res1 = Inr res'"
    by (auto split: sum.splits)
  from scanProcEntry_inv [of Q opts, OF add Cons.prems(1) one] have "Q res1" .
  from Cons.IH [OF this rest] show ?case .
qed

lemma getRuntimeRoots_inv:
  assumes add: "\<And>k v m. Q m \<Longrightarrow> runtime_key (storeDir opts) k \<Longrightarrow> Q (roots_add k v m)"
    and q: "Q []" and r: "getRuntimeRoots fs opts = Inr res"
  shows "Q res"
proof (cases "exists fs ''/proc'' = Inr True")
  case False
  with r q show ?thesis
    by (auto simp: getRuntimeRoots_def Let_def split: sum.splits bool.splits)
next
  case True
  with r obtain r0 r1 r2 where
    s0: "scanProcEntries fs opts (fst (directory_iterator fs ''/proc'')) [] = Inr r0"
    and s1: "scanFileContent fs opts ''/proc/sys/kernel/modprobe'' r0 = Inr r1"
    and s2: "scanFileContent fs opts ''/proc/sys/kernel/fbsplash'' r1 = Inr r2"
    and s3: "scanFileContent fs opts ''/proc/sys/kernel/poweroff_cmd'' r2 = Inr res"
    by (auto simp: getRuntimeRoots_def Let_def split: sum.splits option.splits)
  from scanProcEntries_inv [of Q opts, OF add q s0] have "Q r0" .
  from scanFileContent_inv [of Q opts, OF add this s1] have "Q r1" .
  from scanFileContent_inv [of Q opts, OF add this s2] have "Q r2" .
  from scanFileContent_inv [of Q opts, OF add this s3] show ?thesis .
qed

section \<open>Chains of links\<close>

lemma snd_regular_case:
  "snd (regular_case fs opts res root) = snd (regular_case fs opts res' root)"
  by (simp add: regular_case_def Let_def split: sum.splits bool.splits)

lemma follow_error_independent:
  "snd (followPathToStore fs opts n res root st sub err)
     = snd (followPathToStore fs opts n res' root st sub err)"
  "snd (followChildren fs opts n res ds) = snd (followChildren fs opts n res' ds)"
proof (induction fs opts n res root st sub err and fs opts n res ds
    arbitrary: res' and res' rule: followPathToStore_followChildren.induct)
  case (1 fs opts n res root st sub err)
  show ?case
  proof (cases "n < 0")
    case True
    then show ?thesis by (simp add: followPathToStore.simps [of fs opts n])
  next
    case nonneg: False
    show ?thesis
    proof (cases st)
      case directory
      have "snd (followChildren fs opts n res (preorder sub))
            = snd (followChildren fs opts n res' (preorder sub))"
        using "1.IH"(1) [OF nonneg directory] .
      then show ?thesis using nonneg directory
        by (auto simp: followPathToStore.simps [of fs opts n] split: prod.splits option.splits)
    next
      case symlink
      show ?thesis
      proof (cases "read_symlink fs root")
        case (Inl e)
        then show ?thesis using nonneg symlink
          by (simp add: followPathToStore.simps [of fs opts n])
      next
        case (Inr link)
        define target where "target = path_append (parent_path root) link"
        have any: "snd (regular_case fs opts x root) = snd (regular_case fs opts y root)" for x y
          by (rule snd_regular_case)
        show ?thesis
        proof (cases "symlink_status fs target")
          case (Inl e)
          then show ?thesis using nonneg symlink Inr any
            by (simp add: followPathToStore.simps [of fs opts n] target_def Let_def)
        next
          case status: (Inr ts)
          show ?thesis
          proof (cases "isInStore (storeDir opts) target")
            case True
            then show ?thesis using nonneg symlink Inr status
              by (simp add: followPathToStore.simps [of fs opts n] target_def [symmetric] Let_def)
          next
            case False
            have l: "snd (followPathToStore fs opts n res root st sub err)
                     = snd (regular_case fs opts res root)"
              using nonneg symlink Inr status False any
              by (auto simp: followPathToStore.simps [of fs opts n res] target_def [symmetric]
                  Let_def split: prod.splits option.splits)
            have r: "snd (followPathToStore fs opts n res' root st sub err)
                     = snd (regular_case fs opts res root)"
              using nonneg symlink Inr status False any
              by (auto simp: followPathToStore.simps [of fs opts n res'] target_def [symmetric]
                  Let_def split: prod.splits option.splits)
            from l r show ?thesis by simp
          qed
        qed
      qed
    next
      case regular
      then show ?thesis using nonneg snd_regular_case
        by (simp add: followPathToStore.simps [of fs opts n])
    qed (use nonneg in \<open>simp_all add: followPathToStore.simps [of fs opts n]\<close>)
  qed
next
  case (2 fs opts n res)
  show ?case by simp
next
  case (3 fs opts n res p t cs e rest)
  obtain r1 e1 where f1: "followPathToStore fs opts n res p t cs e = (r1, e1)"
    by (cases "followPathToStore fs opts n res p t cs e")
  obtain r2 e2 where f2: "followPathToStore fs opts n res' p t cs e = (r2, e2)"
    by (cases "followPathToStore fs opts n res' p t cs e")
  have same: "e1 = e2" using "3.IH"(1) [of res'] f1 f2 by simp
  show ?case
  proof (cases e1)
    case (Some x)
    with same have "e2 = Some x" by simp
    with Some f1 f2 show ?thesis by simp
  next
    case None
    with f1 have eq: "(r1, None) = followPathToStore fs opts n res p t cs e" by simp
    have "snd (followChildren fs opts n r1 rest) = snd (followChildren fs opts n r2 rest)"
      using "3.IH"(2) eq by blast
    moreover from None same have "e2 = None" by simp
    ultimately show ?thesis using None f1 f2 by simp
  qed
qed

lemma keeps_edge:
  assumes "has_edge (storeRoots res) t l"
  shows "has_edge (storeRoots (fst (followPathToStore fs opts n res root st sub err))) t l"
    and "has_edge (storeRoots (fst (followChildren fs opts n res ds))) t l"
proof -
  let ?P = "\<lambda>res. has_edge (storeRoots res) t l"
  have dead: "?P (mark_dead r res)" if "?P res" for r res
    using that by (simp add: mark_dead_def)
  have add: "?P (add_root k r res)" if "?P res" for k r res
    using that by (simp add: add_root_def has_edge_roots_add_mono)
  show "?P (fst (followPathToStore fs opts n res root st sub err))"
    using follow_invariant(1) [of ?P opts res fs n root st sub err] dead add assms by blast
  show "?P (fst (followChildren fs opts n res ds))"
    using follow_invariant(2) [of ?P opts res fs n ds] dead add assms by blast
qed

lemma regular_case_keeps_edge:
  assumes "has_edge (storeRoots res) t l"
  shows "has_edge (storeRoots (fst (regular_case fs opts res root))) t l"
  using assms
  by (auto simp: regular_case_def Let_def add_root_def has_edge_roots_add_mono
      split: sum.splits bool.splits)

lemma direct_link_recorded:
  assumes "0 \<le> n" and "link_target fs a = Some t" and "isInStore (storeDir opts) t"
    and "present fs t"
  shows "has_edge (storeRoots (fst (followPathToStore fs opts n res a symlink sub err))) t a"
proof -
  from assms(2) obtain link where link: "read_symlink fs a = Inr link"
    and t: "t = path_append (parent_path a) link"
    by (auto simp: link_target_def split: sum.splits)
  from assms(4) obtain ts where ts: "symlink_status fs t = Inr ts" and found: "ts \<noteq> not_found"
    by (cases "symlink_status fs t") (auto simp: present_def)
  have "followPathToStore fs opts n res a symlink sub err = (add_root t a res, None)"
    using assms(1,3) link ts found
    by (simp add: followPathToStore.simps [of fs opts n] t [symmetric] Let_def)
  then show ?thesis by (simp add: add_root_def has_edge_roots_add)
qed

lemma chain_recorded:
  assumes n: "1 \<le> n" and chain: "chain_end fs (storeDir opts) a = Some (l, t)"
  shows "has_edge (storeRoots (fst (followPathToStore fs opts n res a symlink sub err))) t l"
proof -
  from chain obtain b where b: "link_target fs a = Some b"
    by (auto simp: chain_end_def split: option.splits)
  show ?thesis
  proof (cases "isInStore (storeDir opts) b")
    case True
    with chain b have "l = a" "t = b" "present fs b"
      by (auto simp: chain_end_def split: if_splits)
    with direct_link_recorded [of n fs a b opts res sub err] n b True show ?thesis by simp
  next
    case False
    with chain b have sb: "symlink_status fs b = Inr symlink"
      and tb: "link_target fs b = Some t" and l: "l = b"
      and t: "isInStore (storeDir opts) t" "present fs t"
      by (auto simp: chain_end_def split: if_splits option.splits)
    from b obtain link where link: "read_symlink fs a = Inr link"
      and bdef: "b = path_append (parent_path a) link"
      by (auto simp: link_target_def split: sum.splits)
    define inner where "inner = followPathToStore fs opts (n - 1) res b symlink
        (fst (recursive_directory_iterator fs b)) (snd (recursive_directory_iterator fs b))"
    have edge: "has_edge (storeRoots (fst inner)) t b"
      unfolding inner_def using direct_link_recorded [of "n - 1" fs b t opts] n tb t by simp
    have "fst (followPathToStore fs opts n res a symlink sub err)
          = fst (regular_case fs opts
                   (case snd inner of None \<Rightarrow> fst inner | Some e \<Rightarrow> mark_dead a (fst inner)) a)"
      using n link sb False
      by (auto simp: followPathToStore.simps [of fs opts n] bdef [symmetric] inner_def Let_def
          split: prod.splits option.splits)
    moreover have "has_edge (storeRoots
        (case snd inner of None \<Rightarrow> fst inner | Some e \<Rightarrow> mark_dead a (fst inner))) t b"
      using edge by (simp add: mark_dead_def split: option.splits)
    ultimately show ?thesis using regular_case_keeps_edge l by simp
  qed
qed

lemma followChildren_reaches:
  assumes n: "1 \<le> n" and chain: "chain_end fs (storeDir opts) a = Some (l, t)"
  shows "list_ex (\<lambda>d. case d of Dirent p ty cs e \<Rightarrow> p = a \<and> ty = symlink) ds \<Longrightarrow>
         snd (followChildren fs opts n res ds) = None \<Longrightarrow>
         has_edge (storeRoots (fst (followChildren fs opts n res ds))) t l"
proof (induction ds arbitrary: res)
  case Nil
  then show ?case by simp
next
  case (Cons d ds)
  obtain p ty cs e where d: "d = Dirent p ty cs e" by (cases d)
  obtain r1 e1 where f1: "followPathToStore fs opts n res p ty cs e = (r1, e1)"
    by (cases "followPathToStore fs opts n res p ty cs e")
  from Cons.prems(2) d f1 have e1: "e1 = None"
    by (cases e1) simp_all
  with Cons.prems(2) d f1 have rest: "snd (followChildren fs opts n r1 ds) = None" by simp
  have whole: "followChildren fs opts n res (d # ds) = followChildren fs opts n r1 ds"
    using d f1 e1 by simp
  show ?case
  proof (cases "p = a \<and> ty = symlink")
    case True
    with chain_recorded [OF n chain, of res cs e] f1 have "has_edge (storeRoots r1) t l" by simp
    from keeps_edge(2) [OF this] show ?thesis unfolding whole .
  next
    case False
    with Cons.prems(1) d
    have "list_ex (\<lambda>d. case d of Dirent p ty cs e \<Rightarrow> p = a \<and> ty = symlink) ds" by simp
    from Cons.IH [OF this rest] show ?thesis unfolding whole .
  qed
qed

lemma followPathToStore_path_reaches:
  assumes "reached fs opts r a" and chain: "chain_end fs (storeDir opts) a = Some (l, t)"
  shows "has_edge (storeRoots (followPathToStore_path fs opts maxRecursionLevel res r)) t l"
proof (cases "symlink_status fs r = Inr symlink")
  case True
  with assms(1) have "a = r" by (simp add: reached_def)
  with True chain_recorded [of maxRecursionLevel fs opts a l t res] chain show ?thesis
    by (simp add: followPathToStore_path_def maxRecursionLevel_def)
next
  case False
  let ?sub = "fst (recursive_directory_iterator fs r)"
  let ?err = "snd (recursive_directory_iterator fs r)"
  from False assms(1) have dir: "symlink_status fs r = Inr directory"
    and ex: "list_ex (\<lambda>d. case d of Dirent p ty cs e \<Rightarrow> p = a \<and> ty = symlink) (preorder ?sub)"
    and ok0: "snd (followPathToStore fs opts maxRecursionLevel \<lparr>storeRoots = [], deadLinks = []\<rparr>
               r directory ?sub ?err) = None"
    by (auto simp: reached_def split: if_splits)
  from ok0 follow_error_independent(1)
  have ok: "snd (followPathToStore fs opts maxRecursionLevel res r directory ?sub ?err) = None"
    by metis
  have unfold: "followPathToStore fs opts maxRecursionLevel res r directory ?sub ?err =
      (case followChildren fs opts maxRecursionLevel res (preorder ?sub) of
         (res', Some e) \<Rightarrow> (res', Some e)
       | (res', None) \<Rightarrow> (res', ?err))"
    by (simp add: followPathToStore.simps [of fs opts 2] maxRecursionLevel_def
        split: prod.splits option.splits)
  from ok have ch: "snd (followChildren fs opts maxRecursionLevel res (preorder ?sub)) = None"
    unfolding unfold by (auto split: prod.splits option.splits)
  have "has_edge (storeRoots (fst (followChildren fs opts maxRecursionLevel res (preorder ?sub)))) t l"
    using followChildren_reaches [OF _ chain ex ch] by (simp add: maxRecursionLevel_def)
  moreover have "fst (followPathToStore fs opts maxRecursionLevel res r directory ?sub ?err)
      = fst (followChildren fs opts maxRecursionLevel res (preorder ?sub))"
    unfolding unfold by (auto split: prod.splits option.splits)
  ultimately show ?thesis using dir by (simp add: followPathToStore_path_def)
qed

lemma followPathToStore_path_keeps_edge:
  assumes "has_edge (storeRoots res) t l"
  shows "has_edge (storeRoots (followPathToStore_path fs opts n res root)) t l"
  using assms keeps_edge(1) [OF assms]
  by (simp add: followPathToStore_path_def split: sum.splits)

lemma followPathsToStore_reaches:
  assumes "r \<in> set roots" and "reached fs opts r a"
    and "chain_end fs (storeDir opts) a = Some (l, t)"
  shows "has_edge (storeRoots (followPathsToStore fs opts roots)) t l"
proof -
  let ?f = "\<lambda>root res. followPathToStore_path fs opts maxRecursionLevel res root"
  have keep: "has_edge (storeRoots res) t l \<Longrightarrow> has_edge (storeRoots (fold ?f xs res)) t l"
    for xs res
    by (induction xs arbitrary: res) (simp_all add: followPathToStore_path_keeps_edge)
  have "r \<in> set xs \<Longrightarrow> has_edge (storeRoots (fold ?f xs res)) t l" for xs res
  proof (induction xs arbitrary: res)
    case Nil
    then show ?case by simp
  next
    case (Cons x xs)
    show ?case
    proof (cases "x = r")
      case True
      from followPathToStore_path_reaches [OF assms(2,3), of res]
      have "has_edge (storeRoots (?f x res)) t l" using True by simp
      from keep [OF this] show ?thesis by simp
    next
      case False
      with Cons.prems have "r \<in> set xs" by simp
      from Cons.IH [OF this] show ?thesis by simp
    qed
  qed
  from this [OF assms(1)] show ?thesis by (simp add: followPathsToStore_def)
qed

section \<open>Order and keys of a whole scan\<close>

lemma tracer_sorted:
  "roots_sorted (storeRoots (followPathsToStore fs opts roots)) \<and>
   sorted_paths (deadLinks (followPathsToStore fs opts roots))"
proof (rule followPathsToStore_inv [of "\<lambda>res. roots_sorted (storeRoots res) \<and> sorted_paths (deadLinks res)"])
  show "roots_sorted (storeRoots (mark_dead r res)) \<and> sorted_paths (deadLinks (mark_dead r res))"
    if "roots_sorted (storeRoots res) \<and> sorted_paths (deadLinks res)" for r res
    using that by (simp add: mark_dead_def set_insert_sorted)
  show "roots_sorted (storeRoots (add_root k r res)) \<and> sorted_paths (deadLinks (add_root k r res))"
    if "roots_sorted (storeRoots res) \<and> sorted_paths (deadLinks res)" for k r res
    using that by (simp add: add_root_def roots_add_sorted)
  show "roots_sorted (storeRoots \<lparr>storeRoots = [], deadLinks = []\<rparr>) \<and>
        sorted_paths (deadLinks \<lparr>storeRoots = [], deadLinks = []\<rparr>)"
    by (simp add: roots_sorted_def sorted_paths_def)
qed

lemma runtime_sorted:
  assumes "getRuntimeRoots fs opts = Inr r"
  shows "roots_sorted r"
proof (rule getRuntimeRoots_inv [of roots_sorted opts fs r])
  show "roots_sorted (roots_add k v m)" if "roots_sorted m" for k v m
    using that by (rule roots_add_sorted)
  show "roots_sorted []" by (simp add: roots_sorted_def sorted_paths_def)
  show "getRuntimeRoots fs opts = Inr r" by (rule assms)
qed

lemma scan_sorted:
  assumes "scan fs opts = Inr tr"
  shows "roots_sorted (storeRoots tr) \<and> sorted_paths (deadLinks tr)"
proof -
  from assms obtain rt where rt: "getRuntimeRoots fs opts = Inr rt"
    and eq: "tr = (followPathsToStore fs opts (standardRoots opts))
               \<lparr>storeRoots := map_insert_range rt
                  (storeRoots (followPathsToStore fs opts (standardRoots opts)))\<rparr>"
    by (auto simp: scan_def Let_def split: sum.splits)
  have "\<forall>e \<in> set rt. sorted_paths (snd e)"
    using runtime_sorted [OF rt] by (simp add: roots_sorted_def)
  with tracer_sorted [of fs opts "standardRoots opts"]
  show ?thesis by (simp_all add: eq map_insert_range_sorted)
qed

lemma tracer_keys:
  "\<forall>k \<in> fst ` set (storeRoots (followPathsToStore fs opts roots)). tracer_key (storeDir opts) k"
proof (rule followPathsToStore_inv
    [of "\<lambda>res. \<forall>k \<in> fst ` set (storeRoots res). tracer_key (storeDir opts) k"])
  show "\<forall>k \<in> fst ` set (storeRoots (mark_dead r res)). tracer_key (storeDir opts) k"
    if "\<forall>k \<in> fst ` set (storeRoots res). tracer_key (storeDir opts) k" for r res
    using that by (simp add: mark_dead_def)
  show "\<forall>k' \<in> fst ` set (storeRoots (add_root k r res)). tracer_key (storeDir opts) k'"
    if "\<forall>k \<in> fst ` set (storeRoots res). tracer_key (storeDir opts) k"
      and "tracer_key (storeDir opts) k" for k r res
  proof -
    have "fst ` set (storeRoots (add_root k r res)) \<subseteq> insert k (fst ` set (storeRoots res))"
      using keys_roots_add [of k r "storeRoots res"] by (simp add: add_root_def)
    with that show ?thesis by blast
  qed
  show "\<forall>k \<in> fst ` set (storeRoots \<lparr>storeRoots = [], deadLinks = []\<rparr>). tracer_key (storeDir opts) k"
    by simp
qed

lemma runtime_keys:
  assumes "getRuntimeRoots fs opts = Inr r"
  shows "\<forall>k \<in> fst ` set r. runtime_key (storeDir opts) k"
proof (rule getRuntimeRoots_inv [of "\<lambda>m. \<forall>k \<in> fst ` set m. runtime_key (storeDir opts) k" opts fs r])
  show "\<forall>k' \<in> fst ` set (roots_add k v m). runtime_key (storeDir opts) k'"
    if "\<forall>k \<in> fst ` set m. runtime_key (storeDir opts) k" and "runtime_key (storeDir opts) k"
    for k v m
    using that keys_roots_add [of k v m] by blast
  show "\<forall>k \<in> fst ` set []. runtime_key (storeDir opts) k" by simp
  show "getRuntimeRoots fs opts = Inr r" by (rule assms)
qed

section \<open>Serialisation\<close>

lemma send_one_entry:
  "fold (\<lambda>externalRoot out2.
           send [CHR 0x0A] (send externalRoot (send [CHR 0x09] (send k out2)))) vs out
   = out @ concat (map (\<lambda>v. k @ [CHR 0x09] @ v @ [CHR 0x0A]) vs)"
  by (induction vs arbitrary: out) (simp_all add: send_def)

lemma sendRoots_eq: "sendRoots m out = out @ concat (store_lines m)"
proof (induction m arbitrary: out)
  case Nil
  show ?case by (simp add: sendRoots_def store_lines_def)
next
  case (Cons e m)
  obtain k vs where e: "e = (k, vs)" by (cases e)
  have "sendRoots (e # m) out =
        sendRoots m (out @ concat (map (\<lambda>v. k @ [CHR 0x09] @ v @ [CHR 0x0A]) vs))"
    using send_one_entry [of k vs out] by (simp add: sendRoots_def e)
  also have "\<dots> = out @ concat (store_lines (e # m))"
    using Cons.IH by (simp add: store_lines_def e)
  finally show ?case .
qed

lemma sendDeadLinks_eq: "sendDeadLinks ds out = out @ concat (dead_lines ds)"
  by (induction ds arbitrary: out) (simp_all add: sendDeadLinks_def dead_lines_def send_def)

lemma respond_eq:
  "respond tr =
     concat (store_lines (storeRoots tr)) @ [CHR 0x0A] @ concat (dead_lines (deadLinks tr))"
  by (simp add: respond_def sendRoots_eq sendDeadLinks_eq send_def)

lemma length_store_lines: "length (store_lines m) = sum_list (map (\<lambda>e. length (snd e)) m)"
  by (induction m) (simp_all add: store_lines_def)

lemma concat_sends: "concat (sends tr) = respond tr"
proof -
  have "concat (concat (map (\<lambda>e. concat (map (\<lambda>v. [fst e, [CHR 0x09], v, [CHR 0x0A]]) (snd e))) m))
        = concat (store_lines m)" for m :: Roots
  proof (induction m)
    case Nil
    show ?case by (simp add: store_lines_def)
  next
    case (Cons e m)
    have "concat (concat (map (\<lambda>v. [k, [CHR 0x09], v, [CHR 0x0A]]) vs))
          = concat (map (\<lambda>v. k @ [CHR 0x09] @ v @ [CHR 0x0A]) vs)" for k :: string and vs
      by (induction vs) simp_all
    with Cons show ?case by (simp add: store_lines_def)
  qed
  moreover have "concat (concat (map (\<lambda>d. [d, [CHR 0x0A]]) ds)) = concat (dead_lines ds)"
    for ds :: "string list"
    by (induction ds) (simp_all add: dead_lines_def)
  ultimately show ?thesis by (simp add: sends_def respond_eq)
qed

lemma store_lines_edges: "store_lines m = map edge_line (edges m)"
  by (induction m) (simp_all add: store_lines_def edges_def edge_line_def)

lemma lex_pair_less:
  fixes a1 b1 :: "'a::linorder" and a2 b2 :: "'b::linorder"
  shows "(a1, a2) < (b1, b2) \<longleftrightarrow> a1 < b1 \<or> (a1 = b1 \<and> a2 < b2)"
  by auto

lemma edge_less_iff: "edge_less a b \<longleftrightarrow> (pkey (fst a), pkey (snd a)) < (pkey (fst b), pkey (snd b))"
  unfolding edge_less_def path_less_def by (rule lex_pair_less [symmetric])

lemma edges_sorted:
  assumes "roots_sorted m"
  shows "sorted_wrt edge_less (edges m)"
  using assms
proof (induction m)
  case Nil
  show ?case by (simp add: edges_def)
next
  case (Cons e m)
  from Cons.prems have rest: "roots_sorted m"
    and keys: "\<forall>e' \<in> set m. path_less (fst e) (fst e')"
    and vals: "sorted_wrt path_less (snd e)"
    by (auto simp: roots_sorted_def sorted_paths_def)
  have "sorted_wrt (\<lambda>x y. edge_less (fst e, x) (fst e, y)) (snd e)"
    by (rule sorted_wrt_mono_rel [OF _ vals]) (simp add: edge_less_def)
  then have first: "sorted_wrt edge_less (map (\<lambda>v. (fst e, v)) (snd e))"
    by (simp add: sorted_wrt_map)
  have cross: "edge_less a b"
    if "a \<in> set (map (\<lambda>v. (fst e, v)) (snd e))" and "b \<in> set (edges m)" for a b
  proof -
    from that(1) have "fst a = fst e" by auto
    moreover from that(2) have "fst b \<in> fst ` set m" by (force simp: edges_def)
    ultimately show ?thesis using keys by (auto simp: edge_less_def)
  qed
  have "edges (e # m) = map (\<lambda>v. (fst e, v)) (snd e) @ edges m" by (simp add: edges_def)
  with first Cons.IH [OF rest] cross show ?case by (simp add: sorted_wrt_append)
qed

lemma strictly_sorted_by_key_unique:
  fixes f :: "'a \<Rightarrow> 'b::linorder"
  assumes "sorted_wrt (\<lambda>a b. f a < f b) xs" and "sorted_wrt (\<lambda>a b. f a < f b) ys"
    and "set xs = set ys"
  shows "xs = ys"
proof -
  have sx: "sorted_wrt (<) (map f xs)" and sy: "sorted_wrt (<) (map f ys)"
    using assms(1,2) by (simp_all add: sorted_wrt_map)
  have "set (map f ys) = set (map f xs)" using assms(3) by simp
  from strict_sorted_equal [OF sx sy this] have eq: "map f xs = map f ys" by simp
  from sx have "distinct (map f xs)" by (simp add: strict_sorted_iff)
  then have "inj_on f (set xs)" by (simp add: distinct_map)
  then have "inj_on f (set xs \<union> set ys)" using assms(3) by simp
  from inj_on_map_eq_map [OF this] eq show ?thesis by simp
qed

lemma edges_unique:
  assumes "roots_sorted m" and "roots_sorted m'" and "set (edges m) = set (edges m')"
  shows "edges m = edges m'"
proof (rule strictly_sorted_by_key_unique [of "\<lambda>a. (pkey (fst a), pkey (snd a))"])
  show "sorted_wrt (\<lambda>a b. (pkey (fst a), pkey (snd a)) < (pkey (fst b), pkey (snd b))) (edges m)"
    using edges_sorted [OF assms(1)] by (simp add: edge_less_iff [abs_def])
  show "sorted_wrt (\<lambda>a b. (pkey (fst a), pkey (snd a)) < (pkey (fst b), pkey (snd b))) (edges m')"
    using edges_sorted [OF assms(2)] by (simp add: edge_less_iff [abs_def])
  show "set (edges m) = set (edges m')" by (rule assms(3))
qed

lemma dead_unique:
  assumes "sorted_paths ds" and "sorted_paths ds'" and "set ds = set ds'"
  shows "ds = ds'"
  using assms strictly_sorted_by_key_unique [of pkey ds ds']
  by (simp add: sorted_paths_def path_less_def [abs_def])

section \<open>The accept loop\<close>

lemma main_loop_ended: "status d \<noteq> Running \<Longrightarrow> main_loop opts evs d = d"
  unfolding main_loop_def by (induction evs) (simp_all add: step_def)

text \<open>A client that closes its end after three calls of \<open>send\<close> ends the daemon.\<close>

lemma client_close_ends_daemon:
  "main opts_sv env_ok [Connection fs_mixed (Some 3), Connection no_files None] =
     \<lparr>status = Killed, socket_file = True,
      served = [''/s/abc-hello'' @ [CHR 0x09] @ ''/v/gcroots/a'']\<rparr>"
  by code_simp

lemma step_socket_file: "socket_file (step opts ev d) = socket_file d"
  by (simp add: step_def split: event.splits sum.splits option.splits)

lemma main_loop_socket_file: "socket_file (main_loop opts evs d) = socket_file d"
  unfolding main_loop_def by (induction evs arbitrary: d) (simp_all add: step_socket_file)

lemma scanProcEntries_append:
  "scanProcEntries fs opts (ps1 @ ps2) res =
     (case scanProcEntries fs opts ps1 res of
        Inl e \<Rightarrow> Inl e
      | Inr res' \<Rightarrow> scanProcEntries fs opts ps2 res')"
  by (induction ps1 arbitrary: res) (simp_all split: sum.splits)

lemma scanProcEntry_fd_error:
  assumes "all_digits (filename p)" and "is_directory fs p = Inr True"
    and "snd (directory_iterator fs (path_append p ''fd'')) = Some e"
    and "e \<noteq> ENOENT" and "e \<noteq> EACCES"
  shows "scanProcEntry fs opts p res = Inl e"
  using assms by (simp add: scanProcEntry_def rethrown_def Let_def)

section \<open>Evaluations\<close>

lemma scan_fs_mixed:
  "scan fs_mixed opts_sv =
     Inr \<lparr>storeRoots =
            [(''/s/abc-hello'', [''/v/gcroots/a'', ''/v/gcroots/abc-hello'']),
             (''/s/def-bin'', [''/proc/42/exe'', ''/proc/42/maps'']),
             (''/s/ghi-env'', [''/proc/42/environ'']),
             (''/s/xyz-thing'', [''/home/u/profile''])],
          deadLinks = [''/v/gcroots/dead'']\<rparr>"
  by code_simp

lemma scan_fs_two_hop:
  "scan fs_two_hop opts_sv =
     Inr \<lparr>storeRoots = [(''/s/xyz-thing'', [''/home/u/profile''])], deadLinks = []\<rparr>"
  by code_simp

lemma scan_fs_runtime:
  "scan fs_runtime opts_sv =
     Inr \<lparr>storeRoots = [(''/s/abc-hello/bin/sh'', [''/proc/42/exe''])], deadLinks = []\<rparr>"
  by code_simp

lemma serve_fs_mixed: "serve fs_mixed opts_sv = Inr (respond \<lparr>storeRoots =
            [(''/s/abc-hello'', [''/v/gcroots/a'', ''/v/gcroots/abc-hello'']),
             (''/s/def-bin'', [''/proc/42/exe'', ''/proc/42/maps'']),
             (''/s/ghi-env'', [''/proc/42/environ'']),
             (''/s/xyz-thing'', [''/home/u/profile''])],
          deadLinks = [''/v/gcroots/dead'']\<rparr>)"
  by (simp add: serve_def scan_fs_mixed)

lemma scan_fs_order:
  "scan fs_order opts_sv =
     Inr \<lparr>storeRoots = [(''/s/obj'', [''/v/gcroots/p/r'', ''/v/gcroots/p-old''])],
          deadLinks = []\<rparr>"
  by code_simp

lemma scan_fs_order_listed_otherwise:
  "scan fs_order_listed_otherwise opts_sv =
     Inr \<lparr>storeRoots = [(''/s/obj'', [''/v/gcroots/p/r'', ''/v/gcroots/p-old''])],
          deadLinks = []\<rparr>"
  by code_simp

lemma serve_fs_order:
  "serve fs_order opts_sv =
     Inr (''/s/obj'' @ [CHR 0x09] @ ''/v/gcroots/p/r'' @ [CHR 0x0A] @
          ''/s/obj'' @ [CHR 0x09] @ ''/v/gcroots/p-old'' @ [CHR 0x0A] @ [CHR 0x0A])"
  by code_simp

section \<open>The claims\<close>

text \<open>
  C1. The claim: the hop budget is 2, so for the chain
  \<open>/v/gcroots/a \<rightarrow> /t/b \<rightarrow> /t/c \<rightarrow> /s/obj\<close> of three links no entry for \<open>/s/obj\<close> is
  emitted. The program: the budget is 2, 1 and 0 at the three links and the test is
  \<open>recursionsLeft < 0\<close>, so the third link is read as well and \<open>/s/obj\<close> is emitted with
  \<open>/t/c\<close> as its root. The comment above \<open>followPathsToStore\<close> says the links are followed
  at most twice.
\<close>

theorem three_hop_chain_is_traced:
  "serve fs_over_budget opts_sv =
     Inr (''/s/obj'' @ [CHR 0x09] @ ''/t/c'' @ [CHR 0x0A] @ [CHR 0x0A])"
  by code_simp

text \<open>
  C2, as the claim states it: for \<open>/v/gcroots/a \<rightarrow> /home/u/profile \<rightarrow> /s/xyz-thing\<close> the
  entry of \<open>/s/xyz-thing\<close> lists \<open>/v/gcroots/a\<close>. The program lists the intermediate link
  \<open>/home/u/profile\<close> and not \<open>/v/gcroots/a\<close>.
\<close>

theorem two_hop_first_link_not_listed:
  "\<exists>tr. scan fs_two_hop opts_sv = Inr tr \<and>
        storeRoots tr = [(''/s/xyz-thing'', [''/home/u/profile''])] \<and>
        \<not> has_edge (storeRoots tr) ''/s/xyz-thing'' ''/v/gcroots/a''"
proof -
  have "\<not> has_edge [(''/s/xyz-thing'', [''/home/u/profile''])] ''/s/xyz-thing'' ''/v/gcroots/a''"
    by code_simp
  with scan_fs_two_hop show ?thesis by simp
qed

text \<open>
  C2, amended: for a chain of at most two links that the tracer comes to from a starting
  path and that ends in a store object (a path in the store where something is), the
  emitted map has the store object with the last link of the chain as an external root:
  the link whose own target is the store object. For a chain of one link that is the first
  link. A link into the store with nothing at its target is no such chain.
\<close>

theorem last_link_is_root:
  assumes "scan fs opts = Inr tr" and "r \<in> set (standardRoots opts)"
    and "reached fs opts r a" and "chain_end fs (storeDir opts) a = Some (l, t)"
  shows "has_edge (storeRoots tr) t l"
proof -
  from assms(1) obtain rt where
    eq: "storeRoots tr = map_insert_range rt
                  (storeRoots (followPathsToStore fs opts (standardRoots opts)))"
    by (auto simp: scan_def Let_def split: sum.splits)
  from followPathsToStore_reaches [OF assms(2,3,4)] show ?thesis
    unfolding eq by (rule map_insert_range_has_edge)
qed

theorem last_link_is_root_witness:
  "chain_end fs_dead_in_store ''/s'' ''/v/gcroots/a'' = None \<and>
   chain_end fs_two_hop ''/s'' ''/v/gcroots/a'' = Some (''/home/u/profile'', ''/s/xyz-thing'') \<and>
   has_edge [(''/s/xyz-thing'', [''/home/u/profile''])] ''/s/xyz-thing'' ''/home/u/profile'' \<and>
   chain_end fs_mixed ''/s'' ''/v/gcroots/a'' = Some (''/v/gcroots/a'', ''/s/abc-hello'') \<and>
   has_edge
     [(''/s/abc-hello'', [''/v/gcroots/a'', ''/v/gcroots/abc-hello'']),
      (''/s/def-bin'', [''/proc/42/exe'', ''/proc/42/maps'']),
      (''/s/ghi-env'', [''/proc/42/environ'']),
      (''/s/xyz-thing'', [''/home/u/profile''])] ''/s/abc-hello'' ''/v/gcroots/a''"
proof -
  have sd: "storeDir opts_sv = ''/s''" by (simp add: opts_sv_def)
  have r: "''/v/gcroots'' \<in> set (standardRoots opts_sv)" by code_simp
  have reach2: "reached fs_two_hop opts_sv ''/v/gcroots'' ''/v/gcroots/a''" by code_simp
  have reach1: "reached fs_mixed opts_sv ''/v/gcroots'' ''/v/gcroots/a''" by code_simp
  have c2: "chain_end fs_two_hop ''/s'' ''/v/gcroots/a'' = Some (''/home/u/profile'', ''/s/xyz-thing'')"
    by code_simp
  have c1: "chain_end fs_mixed ''/s'' ''/v/gcroots/a'' = Some (''/v/gcroots/a'', ''/s/abc-hello'')"
    by code_simp
  from last_link_is_root [OF scan_fs_two_hop r reach2, unfolded sd, OF c2]
  have e2: "has_edge [(''/s/xyz-thing'', [''/home/u/profile''])] ''/s/xyz-thing'' ''/home/u/profile''"
    by simp
  from last_link_is_root [OF scan_fs_mixed r reach1, unfolded sd, OF c1]
  have e1: "has_edge
     [(''/s/abc-hello'', [''/v/gcroots/a'', ''/v/gcroots/abc-hello'']),
      (''/s/def-bin'', [''/proc/42/exe'', ''/proc/42/maps'']),
      (''/s/ghi-env'', [''/proc/42/environ'']),
      (''/s/xyz-thing'', [''/home/u/profile''])] ''/s/abc-hello'' ''/v/gcroots/a''"
    by simp
  have c0: "chain_end fs_dead_in_store ''/s'' ''/v/gcroots/a'' = None" by code_simp
  from c0 c1 c2 e1 e2 show ?thesis by simp
qed

text \<open>
  C3, as the claim states it: every key of the emitted map is the store root and exactly one
  component. The key that the \<open>exe\<close> probe of process 42 produces is the whole link
  target \<open>/s/abc-hello/bin/sh\<close>.
\<close>

theorem exe_key_keeps_subpath:
  "\<exists>tr. scan fs_runtime opts_sv = Inr tr \<and>
        \<not> (\<forall>k \<in> fst ` set (storeRoots tr). store_object_path (storeDir opts_sv) k)"
proof -
  have "\<not> store_object_path (storeDir opts_sv) ''/s/abc-hello/bin/sh''"
    by code_simp
  with scan_fs_runtime show ?thesis by simp
qed

text \<open>
  C3, amended: every key of the emitted map that is not the empty path is a path whose
  elements begin with the elements of the store root (the whole target of a link the
  tracer or the \<open>exe\<close>, \<open>cwd\<close> and \<open>fd\<close> probes read, or the whole path field of a line of
  \<open>maps\<close>, with everything below the store object), or the store root joined with a file
  name (the probe for a regular file), or the store root, a separator and one component
  that obeys the lexical rule (a match in a file's content).
\<close>

theorem emitted_keys:
  assumes "scan fs opts = Inr tr"
  shows "\<forall>k \<in> fst ` set (storeRoots tr).
           k \<noteq> [] \<longrightarrow>
           prefix (elems (storeDir opts)) (elems k) \<or>
           (\<exists>n. k = path_append (storeDir opts) n \<and> CHR ''/'' \<notin> set n) \<or>
           store_object_path (storeDir opts) k"
proof (intro ballI impI)
  fix k
  assume k: "k \<in> fst ` set (storeRoots tr)" and ne: "k \<noteq> []"
  from assms obtain rt where rt: "getRuntimeRoots fs opts = Inr rt"
    and eq: "storeRoots tr = map_insert_range rt
                  (storeRoots (followPathsToStore fs opts (standardRoots opts)))"
    by (auto simp: scan_def Let_def split: sum.splits)
  let ?traced = "storeRoots (followPathsToStore fs opts (standardRoots opts))"
  have inst: "prefix (elems (storeDir opts)) (elems k)" if "isInStore (storeDir opts) k"
    using that ne by (simp add: isInStore_iff)
  have "k \<in> fst ` set rt \<union> fst ` set ?traced"
    using k map_insert_range_keys [of rt ?traced] unfolding eq by (rule subsetD [rotated])
  then consider "k \<in> fst ` set rt" | "k \<in> fst ` set ?traced" by (rule UnE)
  then show "prefix (elems (storeDir opts)) (elems k) \<or>
           (\<exists>n. k = path_append (storeDir opts) n \<and> CHR ''/'' \<notin> set n) \<or>
           store_object_path (storeDir opts) k"
  proof cases
    case 1
    with runtime_keys [OF rt] have "runtime_key (storeDir opts) k" by (rule bspec)
    then have "isInStore (storeDir opts) k \<or> store_object_path (storeDir opts) k"
      by (simp only: runtime_key_def)
    then show ?thesis
    proof
      assume "isInStore (storeDir opts) k"
      then show ?thesis by (rule inst [THEN disjI1])
    next
      assume "store_object_path (storeDir opts) k"
      then show ?thesis by (rule disjI2 [OF disjI2])
    qed
  next
    case 2
    with tracer_keys [of fs opts "standardRoots opts"] have "tracer_key (storeDir opts) k"
      by (rule bspec)
    then have "isInStore (storeDir opts) k \<or>
               (\<exists>n. k = path_append (storeDir opts) n \<and> CHR ''/'' \<notin> set n)"
      by (simp only: tracer_key_def)
    then show ?thesis
    proof
      assume "isInStore (storeDir opts) k"
      then show ?thesis by (rule inst [THEN disjI1])
    next
      assume "\<exists>n. k = path_append (storeDir opts) n \<and> CHR ''/'' \<notin> set n"
      then show ?thesis by (rule disjI1 [THEN disjI2])
    qed
  qed
qed

theorem emitted_keys_witness:
  "elems ''/s'' = [''/'', ''s''] \<and>
   elems ''/s/abc-hello/bin/sh'' = [''/'', ''s'', ''abc-hello'', ''bin'', ''sh''] \<and>
   prefix (elems ''/s'') (elems ''/s/abc-hello/bin/sh'') \<and>
   \<not> store_object_path ''/s'' ''/s/abc-hello/bin/sh''"
proof -
  have sd: "storeDir opts_sv = ''/s''" by (simp add: opts_sv_def)
  have no: "\<not> store_object_path ''/s'' ''/s/abc-hello/bin/sh''" by code_simp
  have no2: "\<not> (''/s/abc-hello/bin/sh'' = path_append ''/s'' n \<and> CHR ''/'' \<notin> set n)" for n
  proof (cases "has_root_directory n")
    case True
    then have "path_append ''/s'' n = n" by (simp add: path_append_def)
    then show ?thesis by auto
  next
    case False
    then have "path_append ''/s'' n = ''/s/'' @ n" by (simp add: path_append_def)
    then show ?thesis by auto
  qed
  have mem: "''/s/abc-hello/bin/sh'' \<in> fst ` set [(''/s/abc-hello/bin/sh'', [''/proc/42/exe''])]"
    by simp
  have tr: "storeRoots \<lparr>storeRoots = [(''/s/abc-hello/bin/sh'', [''/proc/42/exe''])], deadLinks = []\<rparr>
            = [(''/s/abc-hello/bin/sh'', [''/proc/42/exe''])]" by simp
  have ne: "''/s/abc-hello/bin/sh'' \<noteq> []" by simp
  from emitted_keys [OF scan_fs_runtime, unfolded tr sd, THEN bspec, OF mem, THEN mp, OF ne]
  have "prefix (elems ''/s'') (elems ''/s/abc-hello/bin/sh'') \<or>
        (\<exists>n. ''/s/abc-hello/bin/sh'' = path_append ''/s'' n \<and> CHR ''/'' \<notin> set n) \<or>
        store_object_path ''/s'' ''/s/abc-hello/bin/sh''" .
  with no no2 have p: "prefix (elems ''/s'') (elems ''/s/abc-hello/bin/sh'')" by blast
  have e1: "elems ''/s'' = [''/'', ''s'']" by code_simp
  have e2: "elems ''/s/abc-hello/bin/sh'' = [''/'', ''s'', ''abc-hello'', ''bin'', ''sh'']"
    by code_simp
  from p no e1 e2 show ?thesis by (intro conjI)
qed

text \<open>
  C4. The claim: no path is both an external root and a dead link of one response. The
  program: \<open>/v/gcroots/a \<rightarrow> /s/gone\<close> with nothing at \<open>/s/gone\<close> is put into the dead links,
  and, since the handler does not return, into the roots of \<open>/s/gone\<close> as well.
\<close>

theorem dead_link_is_also_a_root:
  "scan fs_dead_in_store opts_sv =
     Inr \<lparr>storeRoots = [(''/s/gone'', [''/v/gcroots/a''])], deadLinks = [''/v/gcroots/a'']\<rparr>"
  by code_simp

text \<open>
  C5. The claim: for a store path found by the tracer and by the runtime scanner the
  emitted roots are the union of both. The program: \<open>std::map::insert\<close> leaves an entry
  whose key exists as it is, so the roots the runtime scanner found for \<open>/s/abc\<close> are
  dropped.
\<close>

theorem runtime_roots_of_traced_key_dropped:
  "followPathsToStore fs_both opts_sv (standardRoots opts_sv) =
     \<lparr>storeRoots = [(''/s/abc'', [''/v/gcroots/a''])], deadLinks = []\<rparr> \<and>
   getRuntimeRoots fs_both opts_sv = Inr [(''/s/abc'', [''/proc/42/exe''])] \<and>
   scan fs_both opts_sv =
     Inr \<lparr>storeRoots = [(''/s/abc'', [''/v/gcroots/a''])], deadLinks = []\<rparr>"
  by code_simp

text \<open>
  C6, as the claim states it: an error reading \<open>/proc/1/fd\<close> that is neither \<open>EACCES\<close> nor
  \<open>ENOENT\<close> ends the request only. The program throws it again, nothing catches it, and
  the process ends: the second connection is never served.
\<close>

theorem fd_error_ends_the_daemon:
  "serve fs_fd_error opts_sv = Inl 5 \<and>
   main opts_sv env_ok [Connection fs_fd_error None, Connection no_files None] =
     \<lparr>status = Aborted, socket_file = True, served = []\<rparr>"
  by code_simp

text \<open>
  C6, amended: an error that leaves \<open>getRuntimeRoots\<close> is caught nowhere in \<open>main\<close>: it
  ends the daemon, nothing is sent on that connection and no later connection is served.
  So a daemon that is still running after a request had no such error in that request.
  The first error reading some \<open>/proc/<pid>/fd\<close> that is neither \<open>ENOENT\<close> nor \<open>EACCES\<close>
  is such an error.
\<close>

theorem scan_error_ends_daemon:
  assumes "status d = Running"
  shows "(getRuntimeRoots fs opts = Inl e \<longrightarrow>
            step opts (Connection fs client) d = d\<lparr>status := Aborted\<rparr> \<and>
            main_loop opts evs (step opts (Connection fs client) d) = d\<lparr>status := Aborted\<rparr>) \<and>
         (status (step opts (Connection fs client) d) = Running \<longrightarrow>
            (\<exists>r. getRuntimeRoots fs opts = Inr r)) \<and>
         (exists fs ''/proc'' = Inr True \<and>
          fst (directory_iterator fs ''/proc'') = ps1 @ p # ps2 \<and>
          scanProcEntries fs opts ps1 [] = Inr r1 \<and>
          all_digits (filename p) \<and> is_directory fs p = Inr True \<and>
          snd (directory_iterator fs (path_append p ''fd'')) = Some e \<and>
          e \<noteq> ENOENT \<and> e \<noteq> EACCES
            \<longrightarrow> getRuntimeRoots fs opts = Inl e)"
proof (intro conjI impI)
  assume err: "getRuntimeRoots fs opts = Inl e"
  then show st: "step opts (Connection fs client) d = d\<lparr>status := Aborted\<rparr>"
    using assms by (simp add: step_def scan_def Let_def)
  show "main_loop opts evs (step opts (Connection fs client) d) = d\<lparr>status := Aborted\<rparr>"
    unfolding st by (rule main_loop_ended) simp
next
  assume "status (step opts (Connection fs client) d) = Running"
  then show "\<exists>r. getRuntimeRoots fs opts = Inr r"
    using assms by (cases "getRuntimeRoots fs opts") (simp_all add: step_def scan_def Let_def)
next
  assume h: "exists fs ''/proc'' = Inr True \<and>
          fst (directory_iterator fs ''/proc'') = ps1 @ p # ps2 \<and>
          scanProcEntries fs opts ps1 [] = Inr r1 \<and>
          all_digits (filename p) \<and> is_directory fs p = Inr True \<and>
          snd (directory_iterator fs (path_append p ''fd'')) = Some e \<and>
          e \<noteq> ENOENT \<and> e \<noteq> EACCES"
  have "scanProcEntry fs opts p r1 = Inl e"
    using h scanProcEntry_fd_error by blast
  then have "scanProcEntries fs opts (ps1 @ p # ps2) [] = Inl e"
    using h by (simp add: scanProcEntries_append)
  then show "getRuntimeRoots fs opts = Inl e"
    using h by (simp add: getRuntimeRoots_def Let_def)
qed

theorem scan_error_ends_daemon_witness:
  "getRuntimeRoots fs_fd_error opts_sv = Inl 5 \<and>
   step opts_sv (Connection fs_fd_error None) (startup env_ok)
     = \<lparr>status = Aborted, socket_file = True, served = []\<rparr> \<and>
   main_loop opts_sv [Connection no_files None]
       (step opts_sv (Connection fs_fd_error None) (startup env_ok))
     = \<lparr>status = Aborted, socket_file = True, served = []\<rparr>"
proof -
  have run: "status (startup env_ok) = Running" by code_simp
  have e1: "exists fs_fd_error ''/proc'' = Inr True \<and>
          fst (directory_iterator fs_fd_error ''/proc'') = [] @ ''/proc/1'' # [] \<and>
          scanProcEntries fs_fd_error opts_sv [] [] = Inr [] \<and>
          all_digits (filename ''/proc/1'') \<and> is_directory fs_fd_error ''/proc/1'' = Inr True \<and>
          snd (directory_iterator fs_fd_error (path_append ''/proc/1'' ''fd'')) = Some 5 \<and>
          5 \<noteq> ENOENT \<and> 5 \<noteq> EACCES"
    by code_simp
  note inst = scan_error_ends_daemon [OF run, of fs_fd_error opts_sv 5 None
      "[Connection no_files None]" "[]" "''/proc/1''" "[]" "[]"]
  from inst e1 have err: "getRuntimeRoots fs_fd_error opts_sv = Inl 5" by blast
  have d: "(startup env_ok)\<lparr>status := Aborted\<rparr>
           = \<lparr>status = Aborted, socket_file = True, served = []\<rparr>"
    by code_simp
  from inst err
  have a: "step opts_sv (Connection fs_fd_error None) (startup env_ok)
             = (startup env_ok)\<lparr>status := Aborted\<rparr>"
    and b: "main_loop opts_sv [Connection no_files None]
              (step opts_sv (Connection fs_fd_error None) (startup env_ok))
             = (startup env_ok)\<lparr>status := Aborted\<rparr>"
    by blast+
  from err a [unfolded d] b [unfolded d] show ?thesis by (intro conjI)
qed

text \<open>
  C7, as the claim states it: after \<open>SIGTERM\<close> the socket file is gone. The program
  handles no signal and removes the file before \<open>bind\<close> only: the file is still there
  when the signal has ended the process.
\<close>

theorem sigterm_leaves_socket_file:
  "main opts_sv env_ok [Signal SIGTERM] =
     \<lparr>status = Killed, socket_file = True, served = []\<rparr>"
  by code_simp

text \<open>
  C7, amended: the program removes the file at the socket path once, before \<open>bind\<close>, and
  handles no signal. Once \<open>bind\<close> has succeeded the socket file stays, whatever
  connections, errors of \<open>accept\<close> and signals follow.
\<close>

theorem socket_file_stays_after_bind:
  assumes "socket_ret env \<noteq> 0" and "bind_ret env \<noteq> - 1"
  shows "socket_file (main opts env evs)"
  using assms by (simp add: main_def main_loop_socket_file startup_def)

theorem socket_file_stays_after_bind_witness:
  "socket_file (main opts_sv env_ok [Connection no_files None, Signal SIGHUP]) \<and>
   status (main opts_sv env_ok [Connection no_files None, Signal SIGHUP]) = Killed"
proof -
  have "socket_ret env_ok \<noteq> 0" "bind_ret env_ok \<noteq> - 1" by (simp_all add: env_ok_def)
  from socket_file_stays_after_bind [OF this]
  have "socket_file (main opts_sv env_ok [Connection no_files None, Signal SIGHUP])" .
  moreover have "status (main opts_sv env_ok [Connection no_files None, Signal SIGHUP]) = Killed"
    by code_simp
  ultimately show ?thesis by simp
qed

text \<open>
  C8: every response is the lines of the store objects (for each entry of the map one line
  per external root: store path, tab, root, newline), then one newline, then the lines of
  the dead links.
\<close>

theorem response_layout:
  assumes "serve fs opts = Inr out"
  shows "\<exists>tr. scan fs opts = Inr tr \<and>
           out = concat (store_lines (storeRoots tr)) @ [CHR 0x0A]
                 @ concat (dead_lines (deadLinks tr)) \<and>
           length (store_lines (storeRoots tr))
             = sum_list (map (\<lambda>e. length (snd e)) (storeRoots tr))"
  using assms by (auto simp: serve_def respond_eq length_store_lines split: sum.splits)

theorem response_layout_witness:
  "serve fs_mixed opts_sv =
     Inr (concat (store_lines
            [(''/s/abc-hello'', [''/v/gcroots/a'', ''/v/gcroots/abc-hello'']),
             (''/s/def-bin'', [''/proc/42/exe'', ''/proc/42/maps'']),
             (''/s/ghi-env'', [''/proc/42/environ'']),
             (''/s/xyz-thing'', [''/home/u/profile''])])
          @ [CHR 0x0A] @ concat (dead_lines [''/v/gcroots/dead''])) \<and>
   length (store_lines
            [(''/s/abc-hello'', [''/v/gcroots/a'', ''/v/gcroots/abc-hello'']),
             (''/s/def-bin'', [''/proc/42/exe'', ''/proc/42/maps'']),
             (''/s/ghi-env'', [''/proc/42/environ'']),
             (''/s/xyz-thing'', [''/home/u/profile''])]) = 6 \<and>
   serve no_files opts_sv = Inr [CHR 0x0A]"
proof -
  have empty: "serve no_files opts_sv = Inr [CHR 0x0A]" by code_simp
  from response_layout [OF serve_fs_mixed] obtain tr where
    tr: "scan fs_mixed opts_sv = Inr tr"
    and out: "respond \<lparr>storeRoots =
            [(''/s/abc-hello'', [''/v/gcroots/a'', ''/v/gcroots/abc-hello'']),
             (''/s/def-bin'', [''/proc/42/exe'', ''/proc/42/maps'']),
             (''/s/ghi-env'', [''/proc/42/environ'']),
             (''/s/xyz-thing'', [''/home/u/profile''])],
          deadLinks = [''/v/gcroots/dead'']\<rparr>
        = concat (store_lines (storeRoots tr)) @ [CHR 0x0A] @ concat (dead_lines (deadLinks tr))"
    and len: "length (store_lines (storeRoots tr))
             = sum_list (map (\<lambda>e. length (snd e)) (storeRoots tr))"
    by blast
  from tr scan_fs_mixed have "tr = \<lparr>storeRoots =
            [(''/s/abc-hello'', [''/v/gcroots/a'', ''/v/gcroots/abc-hello'']),
             (''/s/def-bin'', [''/proc/42/exe'', ''/proc/42/maps'']),
             (''/s/ghi-env'', [''/proc/42/environ'']),
             (''/s/xyz-thing'', [''/home/u/profile''])],
          deadLinks = [''/v/gcroots/dead'']\<rparr>" by simp
  with out len serve_fs_mixed empty show ?thesis by simp
qed

text \<open>
  C9. The claim: \<open>-s path\<close> and \<open>-d path\<close> set the store root and the state root as
  \<open>--store_dir\<close> and \<open>--state_dir\<close> do. The program: the option string is \<open>vsl:\<close>, so
  \<open>-s\<close> takes no argument (\<open>optarg\<close> is null when the path is built from it) and \<open>-d\<close> is
  not an option at all (usage, exit 1); only the long options work.
\<close>

theorem short_store_and_state_options_fail:
  "parseCmdLine [''-s'', ''/s''] = Null_optarg \<and>
   parseCmdLine [''-d'', ''/v''] = Usage_exit \<and>
   parseCmdLine [''--store_dir'', ''/s'', ''--state_dir'', ''/v''] =
     Parsed (defaultOpts\<lparr>storeDir := ''/s'', stateDir := ''/v''\<rparr>) \<and>
   storeDir defaultOpts = ''/nix/store'' \<and> stateDir defaultOpts = ''/nix/var/nix''"
  by code_simp

text \<open>
  C10, as the claim states it: the lines of a store path are in the lexicographic order of
  the root paths. The roots \<open>/v/gcroots/p/r\<close> and \<open>/v/gcroots/p-old\<close> of \<open>/s/obj\<close> are
  emitted in this order, and as strings the second is the smaller one.
\<close>

theorem roots_not_in_string_order:
  "serve fs_order opts_sv =
     Inr (''/s/obj'' @ [CHR 0x09] @ ''/v/gcroots/p/r'' @ [CHR 0x0A] @
          ''/s/obj'' @ [CHR 0x09] @ ''/v/gcroots/p-old'' @ [CHR 0x0A] @ [CHR 0x0A]) \<and>
   ''/v/gcroots/p-old'' < ''/v/gcroots/p/r'' \<and>
   \<not> sorted [''/v/gcroots/p/r'', ''/v/gcroots/p-old'']"
proof -
  have lt: "''/v/gcroots/p-old'' < ''/v/gcroots/p/r''" by code_simp
  then have "\<not> ''/v/gcroots/p/r'' \<le> ''/v/gcroots/p-old''" by simp
  then have "\<not> sorted [''/v/gcroots/p/r'', ''/v/gcroots/p-old'']" by simp
  with serve_fs_order lt show ?thesis by (intro conjI)
qed

text \<open>
  C10, amended: the lines of the store objects are emitted in strictly increasing order of
  the store path and, for one store path, of the root; the lines of the dead links in
  strictly increasing order. The order is the one of \<open>path::compare\<close>: a path without root
  directory first, then the elements of the two paths compared one by one as byte strings
  (so \<open>/v/gcroots/p/r\<close> comes before \<open>/v/gcroots/p-old\<close>). Hence the bytes of a response
  are fixed by the set of its pairs and the set of its dead links: two scans that find the
  same sets give the same bytes.
\<close>

theorem response_sections_sorted:
  assumes "serve fs opts = Inr out"
  shows "\<exists>tr. scan fs opts = Inr tr \<and>
           out = concat (map edge_line (edges (storeRoots tr))) @ [CHR 0x0A]
                 @ concat (dead_lines (deadLinks tr)) \<and>
           sorted_wrt edge_less (edges (storeRoots tr)) \<and>
           sorted_wrt path_less (deadLinks tr) \<and>
           (\<forall>fs' opts' tr'.
              scan fs' opts' = Inr tr' \<and>
              set (edges (storeRoots tr')) = set (edges (storeRoots tr)) \<and>
              set (deadLinks tr') = set (deadLinks tr)
              \<longrightarrow> serve fs' opts' = Inr out)"
proof -
  from assms obtain tr where tr: "scan fs opts = Inr tr" and out: "out = respond tr"
    by (auto simp: serve_def split: sum.splits)
  from scan_sorted [OF tr] have rs: "roots_sorted (storeRoots tr)"
    and ds: "sorted_paths (deadLinks tr)" by simp_all
  have layout: "respond t = concat (map edge_line (edges (storeRoots t))) @ [CHR 0x0A]
                 @ concat (dead_lines (deadLinks t))" for t
    by (simp add: respond_eq store_lines_edges)
  have same: "serve fs' opts' = Inr out"
    if h: "scan fs' opts' = Inr tr' \<and>
           set (edges (storeRoots tr')) = set (edges (storeRoots tr)) \<and>
           set (deadLinks tr') = set (deadLinks tr)" for fs' opts' tr'
  proof -
    from h have tr': "scan fs' opts' = Inr tr'" by simp
    from scan_sorted [OF tr'] have rs': "roots_sorted (storeRoots tr')"
      and ds': "sorted_paths (deadLinks tr')" by simp_all
    from h have "edges (storeRoots tr') = edges (storeRoots tr)"
      using edges_unique [OF rs' rs] by simp
    moreover from h have "deadLinks tr' = deadLinks tr"
      using dead_unique [OF ds' ds] by simp
    ultimately have "respond tr' = respond tr" by (simp add: layout)
    with tr' out show ?thesis by (simp add: serve_def)
  qed
  have "out = concat (map edge_line (edges (storeRoots tr))) @ [CHR 0x0A]
                 @ concat (dead_lines (deadLinks tr))"
    using out layout by simp
  moreover have "sorted_wrt edge_less (edges (storeRoots tr))" using rs by (rule edges_sorted)
  moreover have "sorted_wrt path_less (deadLinks tr)" using ds by (simp add: sorted_paths_def)
  ultimately show ?thesis using tr same by blast
qed

theorem response_sections_sorted_witness:
  "sorted_wrt edge_less [(''/s/obj'', ''/v/gcroots/p/r''), (''/s/obj'', ''/v/gcroots/p-old'')] \<and>
   path_less ''/v/gcroots/p/r'' ''/v/gcroots/p-old'' \<and>
   serve fs_order_listed_otherwise opts_sv = serve fs_order opts_sv \<and>
   sorted_wrt path_less [''/v/gcroots/dead'']"
proof -
  let ?tr = "\<lparr>storeRoots = [(''/s/obj'', [''/v/gcroots/p/r'', ''/v/gcroots/p-old''])],
          deadLinks = []\<rparr>"
  from response_sections_sorted [OF serve_fs_order] obtain tr where
    tr: "scan fs_order opts_sv = Inr tr"
    and sorted: "sorted_wrt edge_less (edges (storeRoots tr))"
    and same: "\<And>fs' opts' tr'. scan fs' opts' = Inr tr' \<and>
              set (edges (storeRoots tr')) = set (edges (storeRoots tr)) \<and>
              set (deadLinks tr') = set (deadLinks tr)
              \<Longrightarrow> serve fs' opts' = serve fs_order opts_sv"
    unfolding serve_fs_order [symmetric] by blast
  from tr scan_fs_order have eq: "tr = ?tr" by simp
  have e: "edges (storeRoots ?tr)
           = [(''/s/obj'', ''/v/gcroots/p/r''), (''/s/obj'', ''/v/gcroots/p-old'')]"
    by (simp add: edges_def)
  from sorted have s1: "sorted_wrt edge_less
      [(''/s/obj'', ''/v/gcroots/p/r''), (''/s/obj'', ''/v/gcroots/p-old'')]"
    unfolding eq e .
  have s2: "path_less ''/v/gcroots/p/r'' ''/v/gcroots/p-old''" by code_simp
  have s3: "serve fs_order_listed_otherwise opts_sv = serve fs_order opts_sv"
    by (rule same [of fs_order_listed_otherwise opts_sv ?tr])
       (simp add: scan_fs_order_listed_otherwise eq)
  from response_sections_sorted [OF serve_fs_mixed] obtain tm where
    tm: "scan fs_mixed opts_sv = Inr tm" and sd: "sorted_wrt path_less (deadLinks tm)"
    by blast
  from tm scan_fs_mixed have "tm = \<lparr>storeRoots =
            [(''/s/abc-hello'', [''/v/gcroots/a'', ''/v/gcroots/abc-hello'']),
             (''/s/def-bin'', [''/proc/42/exe'', ''/proc/42/maps'']),
             (''/s/ghi-env'', [''/proc/42/environ'']),
             (''/s/xyz-thing'', [''/home/u/profile''])],
          deadLinks = [''/v/gcroots/dead'']\<rparr>" by simp
  then have "deadLinks tm = [''/v/gcroots/dead'']" by simp
  with sd have s4: "sorted_wrt path_less [''/v/gcroots/dead'']" by simp
  from s1 s2 s3 s4 show ?thesis by (intro conjI)
qed


end
